theory Spec2Isabelle
  imports Main "HOL-Library.Signed_Division" "HOL-Library.Sublist"
begin

section \<open>The HTTP span collector of collector-http.go\<close>

text \<open>
  The collector buffers spans in \<open>c.batch\<close> and forwards them over HTTP. Three kinds of
  goroutine touch it: the producers calling \<open>Collect\<close> and \<open>Close\<close>, the dispatch loop
  \<open>loop\<close>, and one goroutine per \<open>go c.sendNow()\<close>. The model below is an interleaving
  semantics: every goroutine is a program counter, every atomic section of the source is
  one event, and the scheduler is the list of events.

  \<^item> A span is opaque (\<open>*zipkincore.Span\<close>); it is identified by a number.
  \<^item> A Go \<open>error\<close> is its message; \<open>nil\<close> is \<open>None\<close>.
  \<^item> Go's \<open>int\<close>, \<open>time.Duration\<close> and \<open>time.Time\<close> are modelled by \<open>int\<close>
    (durations and instants in nanoseconds). The only subtraction of the source,
    \<open>len(c.batch) - c.maxBacklog\<close>, can wrap around only for a negative \<open>maxBacklog\<close>,
    where the slice expression that follows panics with or without the wrap.
  \<^item> The diagnostic sink \<open>c.logger\<close> is modelled by the sequence of \<open>Log\<close> calls it has
    received.
\<close>

datatype span = Span nat

type_synonym error = string

datatype log_entry =
    Disposing int    \<comment> \<open>\<open>Log("Backlog too long, disposing spans.", "count", dispose)\<close>\<close>
  | LogErr error     \<comment> \<open>\<open>Log("err", err.Error())\<close>\<close>

text \<open>
  A step of the program either yields the next state, or panics (the process is gone), or
  is not enabled (the goroutine is blocked on a channel or a mutex).
\<close>

datatype fault = Panicked string | Blocked

subsection \<open>The struct\<close>

text \<open>
  \<open>quit\<close> and \<open>shutdown\<close> are channels of capacity one: \<open>quit\<close> holds a number of
  tokens, \<open>shutdown\<close> the errors sent and not yet received. \<open>sendMutex\<close> is true when
  locked. \<open>spanc\<close> is unbuffered: a send on it is a rendezvous with the loop and leaves no
  state. Every section guarded by \<open>batchMutex\<close> is one atomic step of the model, so the
  mutex itself carries no state either.
\<close>

record HTTPCollector =
  logger :: "log_entry list"
  url :: string
  client_Timeout :: int
  nextSend :: int
  batchInterval :: int
  batchSize :: int
  maxBacklog :: int
  batch :: "span list"
  quit :: nat
  shutdown :: "error option list"
  sendMutex :: bool

definition second :: int where
  "second = 1000000000"

definition defaultHTTPTimeout :: int where
  "defaultHTTPTimeout = second * 5"

definition defaultHTTPBatchInterval :: int where
  "defaultHTTPBatchInterval = 1"

definition defaultBatchSize :: int where
  "defaultBatchSize = 100"

definition defaultMaxBacklog :: int where
  "defaultMaxBacklog = 1000"

definition NewNopLogger :: "log_entry list" where
  "NewNopLogger = []"

subsection \<open>Options\<close>

type_synonym HTTPOption = "HTTPCollector \<Rightarrow> HTTPCollector"

definition HTTPLogger :: "log_entry list \<Rightarrow> HTTPOption" where
  "HTTPLogger lg = (\<lambda>c. c\<lparr>logger := lg\<rparr>)"

definition HTTPTimeout :: "int \<Rightarrow> HTTPOption" where
  "HTTPTimeout duration = (\<lambda>c. c\<lparr>client_Timeout := duration\<rparr>)"

definition HTTPBatchSize :: "int \<Rightarrow> HTTPOption" where
  "HTTPBatchSize n = (\<lambda>c. c\<lparr>batchSize := n\<rparr>)"

definition HTTPMaxBacklog :: "int \<Rightarrow> HTTPOption" where
  "HTTPMaxBacklog n = (\<lambda>c. c\<lparr>maxBacklog := n\<rparr>)"

definition HTTPBatchInterval :: "int \<Rightarrow> HTTPOption" where
  "HTTPBatchInterval d = (\<lambda>c. c\<lparr>batchInterval := d\<rparr>)"

subsection \<open>The buffer and the schedule\<close>

text \<open>\<open>scheduleNextSend\<close>; the argument \<open>now\<close> is the reading of \<open>time.Now()\<close>.\<close>

definition scheduleNextSend :: "HTTPCollector \<Rightarrow> int \<Rightarrow> HTTPCollector" where
  "scheduleNextSend c now = c\<lparr>nextSend := now + batchInterval c\<rparr>"

text \<open>
  \<open>append\<close> (here \<open>append_span\<close>). The slice expression \<open>c.batch[dispose:]\<close> panics when \<open>dispose\<close> is beyond
  the length of the slice; \<open>dispose\<close> is positive here, since the length exceeds
  \<open>maxBacklog\<close>.
\<close>

definition append_span :: "HTTPCollector \<Rightarrow> span \<Rightarrow> fault + (HTTPCollector \<times> int)" where
  "append_span c sp =
     (let b = batch c @ [sp] in
      if int (length b) > maxBacklog c then
        (let dispose = int (length b) - maxBacklog c;
             lg = logger c @ [Disposing dispose]
         in if dispose > int (length b) then Inl (Panicked ''slice bounds out of range'')
            else Inr (c\<lparr>logger := lg, batch := drop (nat dispose) b\<rparr>,
                      int (length (drop (nat dispose) b))))
      else Inr (c\<lparr>batch := b\<rparr>, int (length b)))"

definition currentBatchSize :: "HTTPCollector \<Rightarrow> int" where
  "currentBatchSize c = int (length (batch c))"

subsection \<open>Serialisation and transport\<close>

text \<open>
  The thrift protocol writer and the URL parser inside \<open>http.NewRequest\<close> are libraries
  outside the repository. They are parameters of the model: each write yields the bytes it
  produced or an error, and \<open>NewRequest\<close> yields the error for a URL that does not parse.
  The outcome of \<open>c.client.Do\<close> differs from call to call; it is a parameter of the event
  that ends a send.
\<close>

record ports =
  WriteListBegin :: "nat \<Rightarrow> error + string"
  Write :: "span \<Rightarrow> error + string"
  WriteListEnd :: "error + string"
  NewRequest :: "string \<Rightarrow> error option"

fun write_spans :: "ports \<Rightarrow> span list \<Rightarrow> fault + string" where
  "write_spans P [] = Inr []"
| "write_spans P (s # spans) =
     (case Write P s of
        Inl err \<Rightarrow> Inl (Panicked err)
      | Inr bytes \<Rightarrow>
          (case write_spans P spans of
             Inl f \<Rightarrow> Inl f
           | Inr rest \<Rightarrow> Inr (bytes @ rest)))"

definition httpSerialize :: "ports \<Rightarrow> span list \<Rightarrow> fault + string" where
  "httpSerialize P spans =
     (case WriteListBegin P (length spans) of
        Inl err \<Rightarrow> Inl (Panicked err)
      | Inr begin_bytes \<Rightarrow>
          (case write_spans P spans of
             Inl f \<Rightarrow> Inl f
           | Inr body \<Rightarrow>
               (case WriteListEnd P of
                  Inl err \<Rightarrow> Inl (Panicked err)
                | Inr end_bytes \<Rightarrow> Inr (begin_bytes @ body @ end_bytes))))"

text \<open>
  \<open>send\<close>. The argument \<open>httpSerialize(spans)\<close> is evaluated before \<open>http.NewRequest\<close>
  runs; \<open>doErr\<close> is what \<open>c.client.Do(req)\<close> returns.
\<close>

definition send :: "ports \<Rightarrow> HTTPCollector \<Rightarrow> span list \<Rightarrow> error option \<Rightarrow> fault + error option" where
  "send P c spans doErr =
     (case httpSerialize P spans of
        Inl f \<Rightarrow> Inl f
      | Inr body \<Rightarrow>
          (case NewRequest P (url c) of
             Some err \<Rightarrow> Inr (Some err)
           | None \<Rightarrow> Inr doErr))"

text \<open>
  The second half of \<open>sendNow\<close>, from \<open>c.send(sendBatch)\<close> on, for a snapshot that is not
  empty: a failed send is logged and the buffer kept, a successful one is followed by
  \<open>c.batch = c.batch[len(sendBatch):]\<close>.
\<close>

definition sendNow_deliver ::
  "ports \<Rightarrow> HTTPCollector \<Rightarrow> span list \<Rightarrow> error option \<Rightarrow> fault + HTTPCollector" where
  "sendNow_deliver P c sendBatch doErr =
     (case send P c sendBatch doErr of
        Inl f \<Rightarrow> Inl f
      | Inr (Some err) \<Rightarrow> Inr (c\<lparr>logger := logger c @ [LogErr err]\<rparr>)
      | Inr None \<Rightarrow>
          if length sendBatch > length (batch c)
          then Inl (Panicked ''slice bounds out of range'')
          else Inr (c\<lparr>batch := drop (length sendBatch) (batch c)\<rparr>))"

subsection \<open>Goroutines\<close>

text \<open>
  A goroutine running \<open>sendNow\<close> is waiting for \<open>sendMutex\<close> (\<open>AtLock\<close>), or holds it and
  is sending its snapshot (\<open>InSend sendBatch\<close>), or has returned. The loop is about to
  create its ticker (\<open>Starting\<close>), or sits in its \<open>select\<close> (\<open>Running\<close>), or runs the
  final \<open>sendNow\<close> of the \<open>quit\<close> case (\<open>Draining\<close>), or has returned (\<open>Stopped\<close>).
\<close>

datatype sender_pc = AtLock | InSend "span list" | Returned

datatype loop_pc = Starting | Running | Draining sender_pc | Stopped

datatype tid = LoopT | Go nat

record system =
  coll :: HTTPCollector
  loop_at :: loop_pc
  spawned :: "sender_pc list"
  tickc :: "int option"

fun pc_of :: "system \<Rightarrow> tid \<Rightarrow> sender_pc option" where
  "pc_of s LoopT = (case loop_at s of Draining pc \<Rightarrow> Some pc | _ \<Rightarrow> None)"
| "pc_of s (Go i) = (if i < length (spawned s) then Some (spawned s ! i) else None)"

fun enter_send :: "tid \<Rightarrow> span list \<Rightarrow> system \<Rightarrow> system" where
  "enter_send LoopT sendBatch s = s\<lparr>loop_at := Draining (InSend sendBatch)\<rparr>"
| "enter_send (Go i) sendBatch s = s\<lparr>spawned := (spawned s)[i := InSend sendBatch]\<rparr>"

text \<open>
  The \<open>err\<close> of \<open>loop\<close> is declared at the top of every iteration and never assigned:
  \<open>sendNow\<close> returns nothing.
\<close>

definition loop_err :: "error option" where
  "loop_err = None"

text \<open>
  \<open>sendNow\<close> returns. In the loop, \<open>c.shutdown <- err\<close> and the \<open>return\<close> follow; the send
  on a channel of capacity one that nobody else sends on does not block.
\<close>

fun return_from :: "tid \<Rightarrow> system \<Rightarrow> system" where
  "return_from LoopT s =
     s\<lparr>coll := (coll s)\<lparr>shutdown := shutdown (coll s) @ [loop_err]\<rparr>, loop_at := Stopped\<rparr>"
| "return_from (Go i) s = s\<lparr>spawned := (spawned s)[i := Returned]\<rparr>"

subsection \<open>Events\<close>

text \<open>
  One event is one atomic step of one goroutine. The granularity is that of the locks:
  \<^item> \<open>LoopStart\<close> is the head of \<open>loop\<close> (line 133): \<open>time.NewTicker\<close> panics on
    an interval that is not positive; the division of a \<open>Duration\<close> truncates.
  \<^item> \<open>Arrival\<close>, \<open>Tick\<close> and \<open>Quit\<close> are the three cases of the \<open>select\<close>
    (lines 140 to 155). \<open>go c.sendNow()\<close> adds a goroutine at \<open>AtLock\<close> and does not
    run it. A clock reading is a parameter of the event wherever the source calls
    \<open>time.Now()\<close>: once in \<open>scheduleNextSend\<close>, and once more in the test of the
    tick case.
  \<^item> \<open>SenderBegin\<close> is \<open>sendNow\<close> from the lock of \<open>sendMutex\<close> to the test for an
    empty snapshot (lines 189 to 200). It is enabled when the mutex is free. An empty
    snapshot makes \<open>sendNow\<close> return, which unlocks the mutex again in the same step.
    The snapshot \<open>c.batch[:]\<close> shares its array with the buffer; later appends write
    beyond its length and evictions only move the start of the buffer, so its elements
    stay what they were and the snapshot is modelled by a copy.
  \<^item> \<open>SenderEnd\<close> is the rest of \<open>sendNow\<close> (lines 202 to 210) and the deferred
    unlock: \<open>send\<close> returns, with the result of \<open>client.Do\<close> as the parameter of the
    event. What other goroutines do while \<open>send\<close> runs are the events between the
    \<open>SenderBegin\<close> and the \<open>SenderEnd\<close> of the goroutine.
  \<^item> \<open>CloseCall\<close> is the send on \<open>quit\<close> in \<open>Close\<close> (line 111), which blocks
    while the channel is full.
\<close>

datatype event =
    LoopStart
  | Arrival span int
  | Tick int int
  | CloseCall
  | Quit
  | SenderBegin tid
  | SenderEnd tid "error option"

fun step :: "ports \<Rightarrow> event \<Rightarrow> system \<Rightarrow> fault + system" where
  "step P LoopStart s =
     (if loop_at s \<noteq> Starting then Inl Blocked
      else if batchInterval (coll s) sdiv 10 \<le> 0
      then Inl (Panicked ''non-positive interval for NewTicker'')
      else Inr (s\<lparr>loop_at := Running, tickc := Some (batchInterval (coll s) sdiv 10)\<rparr>))"
| "step P (Arrival sp now) s =
     (if loop_at s \<noteq> Running then Inl Blocked
      else case append_span (coll s) sp of
          Inl f \<Rightarrow> Inl f
        | Inr (c', newBatchSize) \<Rightarrow>
            if newBatchSize \<ge> batchSize c'
            then Inr (s\<lparr>coll := scheduleNextSend c' now, spawned := spawned s @ [AtLock]\<rparr>)
            else Inr (s\<lparr>coll := c'\<rparr>))"
| "step P (Tick now now') s =
     (if loop_at s \<noteq> Running then Inl Blocked
      else if now > nextSend (coll s)
      then Inr (s\<lparr>coll := scheduleNextSend (coll s) now', spawned := spawned s @ [AtLock]\<rparr>)
      else Inr s)"
| "step P CloseCall s =
     (if quit (coll s) \<ge> 1 then Inl Blocked
      else Inr (s\<lparr>coll := (coll s)\<lparr>quit := quit (coll s) + 1\<rparr>\<rparr>))"
| "step P Quit s =
     (if loop_at s \<noteq> Running \<or> quit (coll s) = 0 then Inl Blocked
      else Inr (s\<lparr>coll := (coll s)\<lparr>quit := quit (coll s) - 1\<rparr>, loop_at := Draining AtLock\<rparr>))"
| "step P (SenderBegin t) s =
     (if pc_of s t \<noteq> Some AtLock \<or> sendMutex (coll s) then Inl Blocked
      else let sendBatch = batch (coll s) in
        if sendBatch = [] then Inr (return_from t s)
        else Inr (enter_send t sendBatch (s\<lparr>coll := (coll s)\<lparr>sendMutex := True\<rparr>\<rparr>)))"
| "step P (SenderEnd t doErr) s =
     (case pc_of s t of
        Some (InSend sendBatch) \<Rightarrow>
          (case sendNow_deliver P (coll s) sendBatch doErr of
             Inl f \<Rightarrow> Inl f
           | Inr c' \<Rightarrow> Inr (return_from t (s\<lparr>coll := c'\<lparr>sendMutex := False\<rparr>\<rparr>)))
      | _ \<Rightarrow> Inl Blocked)"

fun run :: "ports \<Rightarrow> event list \<Rightarrow> system \<Rightarrow> fault + system" where
  "run P [] s = Inr s"
| "run P (e # es) s = (case step P e s of Inl f \<Rightarrow> Inl f | Inr s' \<Rightarrow> run P es s')"

subsection \<open>The exported functions\<close>

text \<open>
  \<open>NewHTTPCollector\<close>; \<open>now\<close> is the clock reading of its \<open>scheduleNextSend\<close>. The loop
  goroutine it launches has not run yet when it returns.
\<close>

definition NewHTTPCollector :: "string \<Rightarrow> HTTPOption list \<Rightarrow> int \<Rightarrow> system \<times> error option" where
  "NewHTTPCollector u options now =
     (let c0 = \<lparr>logger = NewNopLogger, url = u, client_Timeout = defaultHTTPTimeout,
                nextSend = 0, batchInterval = defaultHTTPBatchInterval * second,
                batchSize = defaultBatchSize, maxBacklog = defaultMaxBacklog, batch = [],
                quit = 0, shutdown = [], sendMutex = False\<rparr>;
          c1 = foldl (\<lambda>c option. option c) c0 options;
          c2 = scheduleNextSend c1 now
      in (\<lparr>coll = c2, loop_at = Starting, spawned = [], tickc = None\<rparr>, None))"

text \<open>
  \<open>Collect\<close> (here \<open>Collect_span\<close>, since \<open>Collect\<close> is the set comprehension of
  HOL): the hand-over on \<open>spanc\<close> is the loop's \<open>Arrival\<close> step; then \<open>nil\<close> is
  returned.
\<close>

definition Collect_span :: "ports \<Rightarrow> span \<Rightarrow> int \<Rightarrow> system \<Rightarrow> fault + (error option \<times> system)" where
  "Collect_span P sp now s =
     (case step P (Arrival sp now) s of
        Inl f \<Rightarrow> Inl f
      | Inr s' \<Rightarrow> Inr (None, s'))"

text \<open>
  \<open>Close\<close> is the event \<open>CloseCall\<close> followed by the receive on \<open>shutdown\<close>, which blocks
  while the channel is empty.
\<close>

definition Close_return :: "system \<Rightarrow> fault + (error option \<times> system)" where
  "Close_return s =
     (case shutdown (coll s) of
        [] \<Rightarrow> Inl Blocked
      | err # rest \<Rightarrow> Inr (err, s\<lparr>coll := (coll s)\<lparr>shutdown := rest\<rparr>\<rparr>))"

section \<open>Observations of a run\<close>

subsection \<open>Spans appended, flushes delivered, sends attempted\<close>

text \<open>The spans handed to the loop by the events of a run, in order.\<close>

fun arrival :: "event \<Rightarrow> span list" where
  "arrival (Arrival sp now) = [sp]"
| "arrival _ = []"

definition appended :: "event list \<Rightarrow> span list" where
  "appended evs = concat (map arrival evs)"

text \<open>
  The flush an event delivers: the snapshot of a send that ends with \<open>send\<close> returning
  \<open>nil\<close>.
\<close>

fun flushed :: "ports \<Rightarrow> event \<Rightarrow> system \<Rightarrow> span list list" where
  "flushed P (SenderEnd t doErr) s =
     (case pc_of s t of
        Some (InSend sendBatch) \<Rightarrow>
          (case send P (coll s) sendBatch doErr of Inr None \<Rightarrow> [sendBatch] | _ \<Rightarrow> [])
      | _ \<Rightarrow> [])"
| "flushed P _ s = []"

fun delivered :: "ports \<Rightarrow> event list \<Rightarrow> system \<Rightarrow> span list list" where
  "delivered P [] s = []"
| "delivered P (e # es) s =
     (case step P e s of Inl f \<Rightarrow> [] | Inr s' \<Rightarrow> flushed P e s @ delivered P es s')"

text \<open>The snapshot of every call of \<open>send\<close> that has returned, delivered or not.\<close>

fun attempt :: "event \<Rightarrow> system \<Rightarrow> span list list" where
  "attempt (SenderEnd t doErr) s =
     (case pc_of s t of Some (InSend sendBatch) \<Rightarrow> [sendBatch] | _ \<Rightarrow> [])"
| "attempt _ s = []"

fun attempted :: "ports \<Rightarrow> event list \<Rightarrow> system \<Rightarrow> span list list" where
  "attempted P [] s = []"
| "attempted P (e # es) s =
     (case step P e s of Inl f \<Rightarrow> [] | Inr s' \<Rightarrow> attempt e s @ attempted P es s')"

text \<open>The number of spans the sink has been told were disposed.\<close>

fun disposed :: "log_entry list \<Rightarrow> int" where
  "disposed [] = 0"
| "disposed (Disposing n # es) = n + disposed es"
| "disposed (LogErr err # es) = disposed es"

text \<open>The clock readings an event carries.\<close>

fun readings :: "event \<Rightarrow> int list" where
  "readings (Arrival sp now) = [now]"
| "readings (Tick now now') = [now, now']"
| "readings _ = []"

subsection \<open>Sends in flight\<close>

text \<open>
  The snapshots of the goroutines that are between the lock and the unlock of
  \<open>sendMutex\<close> in \<open>sendNow\<close>: the launched ones in launch order, then the loop.
\<close>

fun sending :: "sender_pc \<Rightarrow> span list list" where
  "sending (InSend sendBatch) = [sendBatch]"
| "sending _ = []"

definition in_flight :: "system \<Rightarrow> span list list" where
  "in_flight s =
     concat (map sending (spawned s)) @ (case loop_at s of Draining pc \<Rightarrow> sending pc | _ \<Rightarrow> [])"

text \<open>No send is in flight and the mutex is free, as after \<open>NewHTTPCollector\<close>.\<close>

definition idle :: "system \<Rightarrow> bool" where
  "idle s \<longleftrightarrow> in_flight s = [] \<and> \<not> sendMutex (coll s)"

text \<open>The events of the loop and of \<open>Close\<close>, as opposed to those of \<open>sendNow\<close>.\<close>

fun loop_event :: "event \<Rightarrow> bool" where
  "loop_event (SenderBegin t) \<longleftrightarrow> False"
| "loop_event (SenderEnd t doErr) \<longleftrightarrow> False"
| "loop_event _ \<longleftrightarrow> True"

text \<open>The loop has started its final \<open>sendNow\<close>, or is beyond it.\<close>

definition begun :: "system \<Rightarrow> bool" where
  "begun s \<longleftrightarrow> loop_at s \<noteq> Starting \<and> loop_at s \<noteq> Running \<and> loop_at s \<noteq> Draining AtLock"

subsection \<open>Runs without overflow\<close>

text \<open>
  An arrival fits when the buffer with the new span does not exceed \<open>maxBacklog\<close>, so
  that \<open>append\<close> evicts nothing.
\<close>

fun fits :: "event \<Rightarrow> system \<Rightarrow> bool" where
  "fits (Arrival sp now) s \<longleftrightarrow> int (length (batch (coll s))) < maxBacklog (coll s)"
| "fits _ s \<longleftrightarrow> True"

fun no_overflow :: "ports \<Rightarrow> event list \<Rightarrow> system \<Rightarrow> bool" where
  "no_overflow P [] s \<longleftrightarrow> True"
| "no_overflow P (e # es) s \<longleftrightarrow>
     fits e s \<and> (case step P e s of Inl f \<Rightarrow> True | Inr s' \<Rightarrow> no_overflow P es s')"

subsection \<open>Invariants\<close>

text \<open>\<open>sendMutex\<close> is locked exactly when one send is in flight.\<close>

definition mutex_inv :: "system \<Rightarrow> bool" where
  "mutex_inv s \<longleftrightarrow> length (in_flight s) = (if sendMutex (coll s) then 1 else 0)"

text \<open>Moreover the snapshot in flight is not empty and is the head of the buffer.\<close>

definition send_inv :: "system \<Rightarrow> bool" where
  "send_inv s \<longleftrightarrow>
     mutex_inv s \<and> list_all (\<lambda>sb. sb \<noteq> [] \<and> prefix sb (batch (coll s))) (in_flight s)"

text \<open>
  Until the loop has returned nothing is on \<open>shutdown\<close>, and during the final send the
  buffer is the snapshot of that send.
\<close>

fun drain_ok :: "loop_pc \<Rightarrow> span list \<Rightarrow> bool" where
  "drain_ok (Draining (InSend sendBatch)) b \<longleftrightarrow> b = sendBatch"
| "drain_ok Stopped b \<longleftrightarrow> False"
| "drain_ok _ b \<longleftrightarrow> True"

definition drain_inv :: "system \<Rightarrow> bool" where
  "drain_inv s \<longleftrightarrow>
     mutex_inv s \<and> shutdown (coll s) = [] \<and> drain_ok (loop_at s) (batch (coll s))"

section \<open>Concrete collectors and runs\<close>

text \<open>A writer and a URL parser that never fail.\<close>

definition ok_ports :: ports where
  "ok_ports = \<lparr>WriteListBegin = (\<lambda>n. Inr ''L''), Write = (\<lambda>sp. Inr ''S''),
                WriteListEnd = Inr [], NewRequest = (\<lambda>u. None)\<rparr>"

text \<open>A writer that cannot write a span.\<close>

definition encode_fail_ports :: ports where
  "encode_fail_ports = \<lparr>WriteListBegin = (\<lambda>n. Inr ''L''), Write = (\<lambda>sp. Inl ''write error''),
                WriteListEnd = Inr [], NewRequest = (\<lambda>u. None)\<rparr>"

text \<open>A URL parser that rejects the URL \<open>:\<close>.\<close>

definition parse_fail_ports :: ports where
  "parse_fail_ports = \<lparr>WriteListBegin = (\<lambda>n. Inr ''L''), Write = (\<lambda>sp. Inr ''S''),
                WriteListEnd = Inr [],
                NewRequest = (\<lambda>u. if u = '':'' then Some ''missing protocol scheme'' else None)\<rparr>"

text \<open>The collector built with \<open>HTTPBatchSize(n)\<close> and \<open>HTTPMaxBacklog(m)\<close> at time 0.\<close>

definition small :: "int \<Rightarrow> int \<Rightarrow> system" where
  "small n m = fst (NewHTTPCollector ''http://zipkin'' [HTTPBatchSize n, HTTPMaxBacklog m] 0)"

text \<open>One span is buffered, \<open>Close\<close> is called, and the final send is refused.\<close>

definition failed_drain :: "event list" where
  "failed_drain = [LoopStart, Arrival (Span 1) 5, CloseCall, Quit, SenderBegin LoopT,
                   SenderEnd LoopT (Some ''connection refused'')]"

text \<open>
  Two spans trigger a send; a third arrives while it is in flight; the send succeeds and
  the next one takes its snapshot.
\<close>

definition windowed :: "event list" where
  "windowed = [LoopStart, Arrival (Span 1) 10, Arrival (Span 2) 20, SenderBegin (Go 0),
               Arrival (Span 3) 30, SenderEnd (Go 0) None, SenderBegin (Go 1)]"

text \<open>
  With a backlog of one span: a send of span 1 is refused, span 2 arrives, the next send
  takes its snapshot.
\<close>

definition refused_then_evicted :: "event list" where
  "refused_then_evicted = [LoopStart, Arrival (Span 1) 10, SenderBegin (Go 0),
       SenderEnd (Go 0) (Some ''connection refused''), Arrival (Span 2) 20, SenderBegin (Go 1)]"

text \<open>Two spans trigger a send, a third arrives while it is in flight.\<close>

definition refused_then_retried :: "event list" where
  "refused_then_retried = [LoopStart, Arrival (Span 1) 10, Arrival (Span 2) 20, SenderBegin (Go 0),
       Arrival (Span 3) 30]"

text \<open>
  With a backlog of one span: spans 2 and 3 arrive, each triggering a send, while the send
  of span 1 is in flight; that send is refused and the next one takes its snapshot.
\<close>

definition overlapped_evicted :: "event list" where
  "overlapped_evicted = [LoopStart, Arrival (Span 1) 10, SenderBegin (Go 0), Arrival (Span 2) 20,
       Arrival (Span 3) 30, SenderEnd (Go 0) (Some ''connection refused''), SenderBegin (Go 1)]"

text \<open>Two spans reach the batch size of two.\<close>

definition overlapped :: "event list" where
  "overlapped = [LoopStart, Arrival (Span 1) 10, Arrival (Span 2) 20]"

text \<open>Two spans, fewer than the batch size, are collected and \<open>Close\<close> is called.\<close>

definition closed_after_two :: "error option \<Rightarrow> event list" where
  "closed_after_two doErr = [LoopStart, Arrival (Span 1) 10, Arrival (Span 2) 20, CloseCall, Quit,
       SenderBegin LoopT, SenderEnd LoopT doErr]"

text \<open>Five spans and no send.\<close>

definition overfilled :: "event list" where
  "overfilled = [LoopStart, Arrival (Span 1) 10, Arrival (Span 2) 20, Arrival (Span 3) 30,
                 Arrival (Span 4) 40, Arrival (Span 5) 50]"

text \<open>One span triggers a send, which the transport accepts.\<close>

definition one_flush :: "event list" where
  "one_flush = [LoopStart, Arrival (Span 1) 10, SenderBegin (Go 0), SenderEnd (Go 0) None]"

text \<open>
  With a backlog of three: spans 3 and 4 arrive while the send of spans 1 and 2 is in
  flight, and the send succeeds.
\<close>

definition overflow_in_flight :: "event list" where
  "overflow_in_flight = [LoopStart, Arrival (Span 1) 10, Arrival (Span 2) 20, SenderBegin (Go 0),
       Arrival (Span 3) 30, Arrival (Span 4) 40, SenderEnd (Go 0) None, SenderBegin (Go 1)]"

section \<open>Auxiliary lemmas\<close>

text \<open>The definitions to unfold when a run is evaluated.\<close>

lemmas model_defs =
  NewHTTPCollector_def scheduleNextSend_def append_span_def sendNow_deliver_def send_def
  httpSerialize_def loop_err_def NewNopLogger_def defaultHTTPTimeout_def
  defaultHTTPBatchInterval_def defaultBatchSize_def defaultMaxBacklog_def second_def
  HTTPBatchSize_def HTTPMaxBacklog_def HTTPBatchInterval_def HTTPLogger_def HTTPTimeout_def
  signed_divide_int_def in_flight_def appended_def Close_return_def Collect_span_def Let_def

lemmas fixture_defs = ok_ports_def encode_fail_ports_def parse_fail_ports_def small_def

subsection \<open>What a step leaves alone\<close>

lemma coll_enter_send [simp]: "coll (enter_send t sb s) = coll s"
  by (cases t) simp_all

lemma coll_return_from:
  "coll (return_from t s) =
     (if t = LoopT then (coll s)\<lparr>shutdown := shutdown (coll s) @ [loop_err]\<rparr> else coll s)"
  by (cases t) simp_all

lemma return_from_fields [simp]:
  "batch (coll (return_from t s)) = batch (coll s)"
  "logger (coll (return_from t s)) = logger (coll s)"
  "maxBacklog (coll (return_from t s)) = maxBacklog (coll s)"
  "batchSize (coll (return_from t s)) = batchSize (coll s)"
  "batchInterval (coll (return_from t s)) = batchInterval (coll s)"
  "nextSend (coll (return_from t s)) = nextSend (coll s)"
  "url (coll (return_from t s)) = url (coll s)"
  "sendMutex (coll (return_from t s)) = sendMutex (coll s)"
  "quit (coll (return_from t s)) = quit (coll s)"
  by (simp_all add: coll_return_from)

lemma append_span_frame:
  assumes "append_span c sp = Inr (c', n)"
  shows "maxBacklog c' = maxBacklog c" "batchSize c' = batchSize c"
    "batchInterval c' = batchInterval c" "url c' = url c" "sendMutex c' = sendMutex c"
    "shutdown c' = shutdown c" "quit c' = quit c" "nextSend c' = nextSend c"
  using assms by (auto simp: append_span_def Let_def split: if_splits)

lemma sendNow_deliver_frame:
  assumes "sendNow_deliver P c sb r = Inr c'"
  shows "maxBacklog c' = maxBacklog c" "batchSize c' = batchSize c"
    "batchInterval c' = batchInterval c" "url c' = url c" "sendMutex c' = sendMutex c"
    "shutdown c' = shutdown c" "quit c' = quit c" "nextSend c' = nextSend c"
  using assms by (auto simp: sendNow_deliver_def split: sum.splits option.splits if_splits)

subsection \<open>What a successful step is\<close>

text \<open>One characterisation for each event: when the step succeeds and what the next state is.\<close>

lemma step_LoopStart_iff:
  "step P LoopStart s = Inr s' \<longleftrightarrow>
     loop_at s = Starting \<and> 0 < batchInterval (coll s) sdiv 10 \<and>
     s' = s\<lparr>loop_at := Running, tickc := Some (batchInterval (coll s) sdiv 10)\<rparr>"
  by auto

lemma step_Arrival_iff:
  "step P (Arrival sp now) s = Inr s' \<longleftrightarrow>
     loop_at s = Running \<and>
     (\<exists>c' n. append_span (coll s) sp = Inr (c', n) \<and>
        s' = (if batchSize c' \<le> n
              then s\<lparr>coll := scheduleNextSend c' now, spawned := spawned s @ [AtLock]\<rparr>
              else s\<lparr>coll := c'\<rparr>))"
  by (auto split: sum.splits)

lemma step_Tick_iff:
  "step P (Tick now now') s = Inr s' \<longleftrightarrow>
     loop_at s = Running \<and>
     s' = (if nextSend (coll s) < now
           then s\<lparr>coll := scheduleNextSend (coll s) now', spawned := spawned s @ [AtLock]\<rparr>
           else s)"
  by auto

lemma step_CloseCall_iff:
  "step P CloseCall s = Inr s' \<longleftrightarrow>
     quit (coll s) = 0 \<and> s' = s\<lparr>coll := (coll s)\<lparr>quit := 1\<rparr>\<rparr>"
  by auto

lemma step_Quit_iff:
  "step P Quit s = Inr s' \<longleftrightarrow>
     loop_at s = Running \<and> 0 < quit (coll s) \<and>
     s' = s\<lparr>coll := (coll s)\<lparr>quit := quit (coll s) - 1\<rparr>, loop_at := Draining AtLock\<rparr>"
  by auto

lemma step_SenderBegin_iff:
  "step P (SenderBegin t) s = Inr s' \<longleftrightarrow>
     pc_of s t = Some AtLock \<and> \<not> sendMutex (coll s) \<and>
     s' = (if batch (coll s) = [] then return_from t s
           else enter_send t (batch (coll s)) (s\<lparr>coll := (coll s)\<lparr>sendMutex := True\<rparr>\<rparr>))"
  by (auto simp: Let_def)

lemma step_SenderEnd_iff:
  "step P (SenderEnd t doErr) s = Inr s' \<longleftrightarrow>
     (\<exists>sb c'. pc_of s t = Some (InSend sb) \<and> sendNow_deliver P (coll s) sb doErr = Inr c' \<and>
        s' = return_from t (s\<lparr>coll := c'\<lparr>sendMutex := False\<rparr>\<rparr>))"
  by (auto split: option.splits sender_pc.splits sum.splits)

lemmas step_iffs =
  step_LoopStart_iff step_Arrival_iff step_Tick_iff step_CloseCall_iff step_Quit_iff
  step_SenderBegin_iff step_SenderEnd_iff

text \<open>The configuration is the same in every state of a run.\<close>

lemma step_cfg:
  assumes "step P e s = Inr s'"
  shows "maxBacklog (coll s') = maxBacklog (coll s)" "batchSize (coll s') = batchSize (coll s)"
    "batchInterval (coll s') = batchInterval (coll s)" "url (coll s') = url (coll s)"
  using assms
  by (cases e;
      auto simp: step_iffs scheduleNextSend_def append_span_frame sendNow_deliver_frame
           simp del: step.simps split: if_splits)+

lemma run_cfg:
  assumes "run P evs s = Inr s'"
  shows "maxBacklog (coll s') = maxBacklog (coll s) \<and> batchSize (coll s') = batchSize (coll s) \<and>
    batchInterval (coll s') = batchInterval (coll s) \<and> url (coll s') = url (coll s)"
  using assms
proof (induction evs arbitrary: s)
  case Nil
  then show ?case by simp
next
  case (Cons e evs)
  from Cons.prems obtain s1 where 1: "step P e s = Inr s1" and 2: "run P evs s1 = Inr s'"
    by (auto split: sum.splits)
  from step_cfg[OF 1] Cons.IH[OF 2] show ?case by simp
qed

subsection \<open>Sends in flight and the mutex\<close>

lemma in_flight_coll [simp]: "in_flight (s\<lparr>coll := c\<rparr>) = in_flight s"
  by (simp add: in_flight_def)

lemma in_flight_tickc [simp]: "in_flight (s\<lparr>tickc := x\<rparr>) = in_flight s"
  by (simp add: in_flight_def)

lemma in_flight_spawn [simp]:
  "in_flight (s\<lparr>spawned := spawned s @ [AtLock]\<rparr>) = in_flight s"
  by (simp add: in_flight_def)

lemma in_flight_loop_idle [simp]:
  "loop_at s = Starting \<or> loop_at s = Running \<Longrightarrow> in_flight (s\<lparr>loop_at := Running\<rparr>) = in_flight s"
  "loop_at s = Starting \<or> loop_at s = Running \<Longrightarrow> in_flight (s\<lparr>loop_at := Draining AtLock\<rparr>) = in_flight s"
  by (auto simp: in_flight_def)

lemma concat_sending_update:
  assumes "i < length xs"
  shows "concat (map sending xs) =
           concat (map sending (take i xs)) @ sending (xs ! i) @ concat (map sending (drop (Suc i) xs))"
    and "concat (map sending (xs[i := v])) =
           concat (map sending (take i xs)) @ sending v @ concat (map sending (drop (Suc i) xs))"
proof -
  have "xs = take i xs @ xs ! i # drop (Suc i) xs"
    using assms by (rule id_take_nth_drop)
  then have "concat (map sending xs) = concat (map sending (take i xs @ xs ! i # drop (Suc i) xs))"
    by simp
  then show "concat (map sending xs) =
           concat (map sending (take i xs)) @ sending (xs ! i) @ concat (map sending (drop (Suc i) xs))"
    by simp
  have "xs[i := v] = take i xs @ v # drop (Suc i) xs"
    using assms by (rule upd_conv_take_nth_drop)
  then show "concat (map sending (xs[i := v])) =
           concat (map sending (take i xs)) @ sending v @ concat (map sending (drop (Suc i) xs))"
    by simp
qed

lemma in_flight_split:
  assumes "pc_of s t = Some pc"
  obtains pre post where
    "in_flight s = pre @ sending pc @ post"
    "\<And>sb c. in_flight (enter_send t sb (s\<lparr>coll := c\<rparr>)) = pre @ [sb] @ post"
    "\<And>c. in_flight (return_from t (s\<lparr>coll := c\<rparr>)) = pre @ post"
    "in_flight (return_from t s) = pre @ post"
proof (cases t)
  case LoopT
  with assms have l: "loop_at s = Draining pc"
    by (auto split: loop_pc.splits)
  show ?thesis
  proof (rule that[of "concat (map sending (spawned s))" "[]"])
    show "in_flight s = concat (map sending (spawned s)) @ sending pc @ []"
      using l by (simp add: in_flight_def)
  qed (simp_all add: LoopT in_flight_def)
next
  case (Go i)
  with assms have i: "i < length (spawned s)" and pc: "spawned s ! i = pc"
    by (auto split: if_splits)
  let ?pre = "concat (map sending (take i (spawned s)))"
  let ?post = "concat (map sending (drop (Suc i) (spawned s)))
                 @ (case loop_at s of Draining pc \<Rightarrow> sending pc | _ \<Rightarrow> [])"
  show ?thesis
  proof (rule that[of ?pre ?post])
    show "in_flight s = ?pre @ sending pc @ ?post"
      using concat_sending_update(1)[OF i] pc by (simp add: in_flight_def)
  qed (simp_all add: Go in_flight_def concat_sending_update(2)[OF i])
qed

text \<open>Every step keeps \<open>mutex_inv\<close>: induction over the run, case analysis on the event.\<close>

lemma step_mutex_inv:
  assumes "step P e s = Inr s'" and "mutex_inv s"
  shows "mutex_inv s'"
proof (cases e)
  case (SenderBegin t)
  with assms(1) have pc: "pc_of s t = Some AtLock" and free: "\<not> sendMutex (coll s)"
    and s': "s' = (if batch (coll s) = [] then return_from t s
           else enter_send t (batch (coll s)) (s\<lparr>coll := (coll s)\<lparr>sendMutex := True\<rparr>\<rparr>))"
    by (simp_all add: step_SenderBegin_iff del: step.simps)
  from in_flight_split[OF pc] obtain pre post where
    sp: "in_flight s = pre @ sending AtLock @ post"
      "\<And>sb c. in_flight (enter_send t sb (s\<lparr>coll := c\<rparr>)) = pre @ [sb] @ post"
      "in_flight (return_from t s) = pre @ post"
    by metis
  from assms(2) free sp(1) have "pre = []" "post = []"
    by (simp_all add: mutex_inv_def)
  then show ?thesis
    using s' sp(2,3) free by (simp add: mutex_inv_def)
next
  case (SenderEnd t doErr)
  with assms(1) obtain sb c' where pc: "pc_of s t = Some (InSend sb)"
    and d: "sendNow_deliver P (coll s) sb doErr = Inr c'"
    and s': "s' = return_from t (s\<lparr>coll := c'\<lparr>sendMutex := False\<rparr>\<rparr>)"
    by (auto simp add: step_SenderEnd_iff simp del: step.simps)
  from in_flight_split[OF pc] obtain pre post where
    sp: "in_flight s = pre @ sending (InSend sb) @ post"
      "\<And>c. in_flight (return_from t (s\<lparr>coll := c\<rparr>)) = pre @ post"
    by metis
  from assms(2) sp(1) have "pre = []" "post = []"
    by (simp_all add: mutex_inv_def split: if_splits)
  then show ?thesis
    using s' sp(2) by (simp add: mutex_inv_def)
qed (use assms in \<open>auto simp: step_iffs mutex_inv_def in_flight_def scheduleNextSend_def
        append_span_frame simp del: step.simps split: if_splits\<close>)

lemma run_mutex_inv:
  assumes "run P evs s = Inr s'" and "mutex_inv s"
  shows "mutex_inv s'"
  using assms
proof (induction evs arbitrary: s)
  case Nil
  then show ?case by simp
next
  case (Cons e evs)
  from Cons.prems(1) obtain s1 where 1: "step P e s = Inr s1" and 2: "run P evs s1 = Inr s'"
    by (auto split: sum.splits)
  from Cons.IH[OF 2 step_mutex_inv[OF 1 Cons.prems(2)]] show ?case .
qed

subsection \<open>Conservation of spans without overflow\<close>

lemma append_span_fits:
  assumes "int (length (batch c)) < maxBacklog c"
  shows "append_span c sp = Inr (c\<lparr>batch := batch c @ [sp]\<rparr>, int (length (batch c)) + 1)"
  using assms by (simp add: append_span_def Let_def)

lemma sendNow_deliver_cases:
  assumes "sendNow_deliver P c sb r = Inr c'"
  obtains (ok) "send P c sb r = Inr None" "length sb \<le> length (batch c)"
      "c' = c\<lparr>batch := drop (length sb) (batch c)\<rparr>"
    | (failed) err where "send P c sb r = Inr (Some err)"
      "c' = c\<lparr>logger := logger c @ [LogErr err]\<rparr>"
  using assms by (auto simp: sendNow_deliver_def split: sum.splits option.splits if_splits)

text \<open>
  A step without overflow keeps \<open>send_inv\<close>, and what it delivers together with the
  new buffer is the old buffer together with what it appended.
\<close>

lemma step_conserves:
  assumes st: "step P e s = Inr s'" and inv: "send_inv s" and fit: "fits e s"
  shows "send_inv s' \<and> concat (flushed P e s) @ batch (coll s') = batch (coll s) @ arrival e"
proof (cases e)
  case (Arrival sp now)
  from fit Arrival have "int (length (batch (coll s))) < maxBacklog (coll s)"
    by simp
  note ap = append_span_fits[OF this, of sp]
  from st Arrival ap have run: "loop_at s = Running"
    and s': "s' = (if batchSize (coll s) \<le> int (length (batch (coll s))) + 1
              then s\<lparr>coll := scheduleNextSend ((coll s)\<lparr>batch := batch (coll s) @ [sp]\<rparr>) now,
                      spawned := spawned s @ [AtLock]\<rparr>
              else s\<lparr>coll := (coll s)\<lparr>batch := batch (coll s) @ [sp]\<rparr>\<rparr>)"
    by (auto simp: step_Arrival_iff simp del: step.simps)
  have b: "batch (coll s') = batch (coll s) @ [sp]" and m: "sendMutex (coll s') = sendMutex (coll s)"
    and f: "in_flight s' = in_flight s"
    using s' by (auto simp: scheduleNextSend_def in_flight_def)
  from inv have "list_all (\<lambda>sb. sb \<noteq> [] \<and> prefix sb (batch (coll s) @ [sp])) (in_flight s)"
    by (auto simp: send_inv_def list_all_iff)
  with inv b m f show ?thesis
    by (simp add: send_inv_def mutex_inv_def Arrival)
next
  case (SenderBegin t)
  with st have pc: "pc_of s t = Some AtLock" and free: "\<not> sendMutex (coll s)"
    and s': "s' = (if batch (coll s) = [] then return_from t s
           else enter_send t (batch (coll s)) (s\<lparr>coll := (coll s)\<lparr>sendMutex := True\<rparr>\<rparr>))"
    by (simp_all add: step_SenderBegin_iff del: step.simps)
  from in_flight_split[OF pc] obtain pre post where
    sp: "in_flight s = pre @ sending AtLock @ post"
      "\<And>sb c. in_flight (enter_send t sb (s\<lparr>coll := c\<rparr>)) = pre @ [sb] @ post"
      "in_flight (return_from t s) = pre @ post"
    by metis
  from inv free sp(1) have e: "pre = []" "post = []"
    by (simp_all add: send_inv_def mutex_inv_def)
  have "send_inv s'"
    using s' sp(2,3) e free by (simp add: send_inv_def mutex_inv_def)
  moreover have "batch (coll s') = batch (coll s)"
    using s' by simp
  ultimately show ?thesis
    by (simp add: SenderBegin)
next
  case (SenderEnd t doErr)
  with st obtain sb c' where pc: "pc_of s t = Some (InSend sb)"
    and d: "sendNow_deliver P (coll s) sb doErr = Inr c'"
    and s': "s' = return_from t (s\<lparr>coll := c'\<lparr>sendMutex := False\<rparr>\<rparr>)"
    by (auto simp add: step_SenderEnd_iff simp del: step.simps)
  from in_flight_split[OF pc] obtain pre post where
    sp: "in_flight s = pre @ sending (InSend sb) @ post"
      "\<And>c. in_flight (return_from t (s\<lparr>coll := c\<rparr>)) = pre @ post"
    by metis
  from inv sp(1) have e: "pre = []" "post = []"
    by (simp_all add: send_inv_def mutex_inv_def split: if_splits)
  have i': "send_inv s'"
    using s' sp(2) e by (simp add: send_inv_def mutex_inv_def)
  from inv sp(1) have pre: "prefix sb (batch (coll s))"
    by (simp add: send_inv_def)
  from d show ?thesis
  proof (cases rule: sendNow_deliver_cases)
    case ok
    from pre obtain rest where r: "batch (coll s) = sb @ rest"
      by (auto simp: prefix_def)
    with ok s' have "batch (coll s') = rest"
      by simp
    with r ok(1) pc i' show ?thesis
      by (simp add: SenderEnd)
  next
    case (failed err)
    with s' have "batch (coll s') = batch (coll s)"
      by simp
    with failed(1) pc i' show ?thesis
      by (simp add: SenderEnd)
  qed
qed (use st inv in \<open>auto simp: step_iffs send_inv_def mutex_inv_def in_flight_def
        scheduleNextSend_def simp del: step.simps split: if_splits\<close>)

lemma run_conserves:
  assumes "run P evs s = Inr s'" and "send_inv s" and "no_overflow P evs s"
  shows "send_inv s' \<and> concat (delivered P evs s) @ batch (coll s') = batch (coll s) @ appended evs"
  using assms
proof (induction evs arbitrary: s)
  case Nil
  then show ?case by (simp add: appended_def)
next
  case (Cons e evs)
  from Cons.prems(1) obtain s1 where 1: "step P e s = Inr s1" and 2: "run P evs s1 = Inr s'"
    by (auto split: sum.splits)
  from Cons.prems(3) 1 have fit: "fits e s" and no: "no_overflow P evs s1"
    by simp_all
  from step_conserves[OF 1 Cons.prems(2) fit]
  have i1: "send_inv s1"
    and c1: "concat (flushed P e s) @ batch (coll s1) = batch (coll s) @ arrival e"
    by simp_all
  from Cons.IH[OF 2 i1 no]
  have i': "send_inv s'"
    and c': "concat (delivered P evs s1) @ batch (coll s') = batch (coll s1) @ appended evs"
    by simp_all
  have "concat (delivered P (e # evs) s) @ batch (coll s')
          = concat (flushed P e s) @ (concat (delivered P evs s1) @ batch (coll s'))"
    using 1 by simp
  also have "\<dots> = (concat (flushed P e s) @ batch (coll s1)) @ appended evs"
    using c' by simp
  also have "\<dots> = batch (coll s) @ appended (e # evs)"
    using c1 by (simp add: appended_def)
  finally show ?case
    using i' by simp
qed

subsection \<open>Runs of loop events\<close>

lemma idle_send_inv: "idle s \<Longrightarrow> send_inv s"
  by (simp add: idle_def send_inv_def mutex_inv_def)

lemma pc_of_coll [simp]: "pc_of (s\<lparr>coll := c\<rparr>) t = pc_of s t"
  by (cases t) simp_all

lemma pc_of_spawn:
  "pc_of s t = Some pc \<Longrightarrow> pc_of (s\<lparr>coll := c, spawned := spawned s @ [AtLock]\<rparr>) t = Some pc"
  by (cases t) (auto simp: nth_append split: if_splits)

lemma step_loop_event:
  assumes "step P e s = Inr s'" and "loop_event e" and "pc_of s t = Some pc"
  shows "pc_of s' t = Some pc \<and> sendMutex (coll s') = sendMutex (coll s)
           \<and> in_flight s' = in_flight s \<and> flushed P e s = []"
proof (cases e)
  case (Arrival sp now)
  with assms(1) obtain c' n where a: "append_span (coll s) sp = Inr (c', n)"
    and s': "s' = (if batchSize c' \<le> n
              then s\<lparr>coll := scheduleNextSend c' now, spawned := spawned s @ [AtLock]\<rparr>
              else s\<lparr>coll := c'\<rparr>)"
    by (auto simp: step_Arrival_iff simp del: step.simps)
  show ?thesis
    using s' assms(3) append_span_frame(5)[OF a]
    by (auto simp: Arrival pc_of_spawn scheduleNextSend_def in_flight_def)
next
  case (Tick now now')
  with assms(1) show ?thesis
    using assms(3) by (auto simp: step_Tick_iff pc_of_spawn scheduleNextSend_def in_flight_def
        simp del: step.simps)
next
  case LoopStart
  with assms(1) have "loop_at s = Starting" and "s' = s\<lparr>loop_at := Running, tickc := Some (batchInterval (coll s) sdiv 10)\<rparr>"
    by (auto simp: step_LoopStart_iff simp del: step.simps)
  with assms(3) show ?thesis
    by (cases t) (auto simp: LoopStart in_flight_def split: if_splits)
next
  case CloseCall
  with assms(1,3) show ?thesis
    by (auto simp: step_CloseCall_iff simp del: step.simps)
next
  case Quit
  with assms(1) have "loop_at s = Running"
    and "s' = s\<lparr>coll := (coll s)\<lparr>quit := quit (coll s) - 1\<rparr>, loop_at := Draining AtLock\<rparr>"
    by (auto simp: step_Quit_iff simp del: step.simps)
  with assms(3) show ?thesis
    by (cases t) (auto simp: Quit in_flight_def split: if_splits)
qed (use assms(2) in simp_all)

lemma run_loop_events:
  assumes "run P evs s = Inr s'" and "list_all loop_event evs" and "no_overflow P evs s"
    and "pc_of s t = Some pc"
  shows "pc_of s' t = Some pc \<and> sendMutex (coll s') = sendMutex (coll s)
           \<and> in_flight s' = in_flight s \<and> batch (coll s') = batch (coll s) @ appended evs"
  using assms
proof (induction evs arbitrary: s)
  case Nil
  then show ?case by (simp add: appended_def)
next
  case (Cons e evs)
  from Cons.prems(1) obtain s1 where 1: "step P e s = Inr s1" and 2: "run P evs s1 = Inr s'"
    by (auto split: sum.splits)
  from Cons.prems(2) have le: "loop_event e" and les: "list_all loop_event evs"
    by simp_all
  from Cons.prems(3) 1 have fit: "fits e s" and no: "no_overflow P evs s1"
    by simp_all
  from step_loop_event[OF 1 le Cons.prems(4)]
  have pc1: "pc_of s1 t = Some pc" and m1: "sendMutex (coll s1) = sendMutex (coll s)"
    and f1: "in_flight s1 = in_flight s"
    by simp_all
  have b1: "batch (coll s1) = batch (coll s) @ arrival e"
  proof (cases e)
    case (Arrival sp now)
    from fit Arrival have "int (length (batch (coll s))) < maxBacklog (coll s)"
      by simp
    note ap = append_span_fits[OF this, of sp]
    with 1 Arrival show ?thesis
      by (auto simp: step_Arrival_iff scheduleNextSend_def simp del: step.simps split: if_splits)
  qed (use 1 le in \<open>auto simp: step_iffs scheduleNextSend_def simp del: step.simps split: if_splits\<close>)
  from Cons.IH[OF 2 les no pc1] m1 f1 b1 show ?case
    by (simp add: appended_def)
qed

lemma step_SenderBegin_in_flight:
  assumes "step P (SenderBegin t) s = Inr s'" and "mutex_inv s"
  shows "in_flight s' = (if batch (coll s) = [] then [] else [batch (coll s)])"
    and "batch (coll s) \<noteq> [] \<Longrightarrow> pc_of s' t = Some (InSend (batch (coll s)))"
proof -
  from assms(1) have pc: "pc_of s t = Some AtLock" and free: "\<not> sendMutex (coll s)"
    and s': "s' = (if batch (coll s) = [] then return_from t s
           else enter_send t (batch (coll s)) (s\<lparr>coll := (coll s)\<lparr>sendMutex := True\<rparr>\<rparr>))"
    by (simp_all add: step_SenderBegin_iff del: step.simps)
  from in_flight_split[OF pc] obtain pre post where
    sp: "in_flight s = pre @ sending AtLock @ post"
      "\<And>sb c. in_flight (enter_send t sb (s\<lparr>coll := c\<rparr>)) = pre @ [sb] @ post"
      "in_flight (return_from t s) = pre @ post"
    by metis
  from assms(2) free sp(1) have e: "pre = []" "post = []"
    by (simp_all add: mutex_inv_def)
  show "in_flight s' = (if batch (coll s) = [] then [] else [batch (coll s)])"
    using s' sp(2,3) e by simp
  show "batch (coll s) \<noteq> [] \<Longrightarrow> pc_of s' t = Some (InSend (batch (coll s)))"
    using s' pc by (cases t) (auto split: if_splits loop_pc.splits)
qed

subsection \<open>The final send\<close>

lemma drain_ok_batch:
  "\<not> (\<exists>sb. l = Draining (InSend sb)) \<Longrightarrow> drain_ok l b = drain_ok l b'"
  by (cases "(l, b)" rule: drain_ok.cases) auto

lemma flushed_attempt: "set (flushed P e s) \<subseteq> set (attempt e s)"
  by (cases e) (auto split: option.splits sender_pc.splits sum.splits)

lemma delivered_attempted: "set (delivered P evs s) \<subseteq> set (attempted P evs s)"
proof (induction evs arbitrary: s)
  case Nil
  then show ?case by simp
next
  case (Cons e evs)
  then show ?case
    using flushed_attempt[of P e s] by (auto split: sum.splits)
qed

lemma set_batch_deliver:
  assumes "sendNow_deliver P c sb r = Inr c'"
  shows "set (batch c') \<subseteq> set (batch c)"
  using assms by (cases rule: sendNow_deliver_cases) (auto dest: in_set_dropD)

lemma step_stopped:
  assumes "step P e s = Inr s'" and "loop_at s = Stopped"
  shows "loop_at s' = Stopped \<and> set (batch (coll s')) \<subseteq> set (batch (coll s))"
proof (cases e)
  case (SenderBegin t)
  with assms show ?thesis
    by (cases t) (auto simp: step_SenderBegin_iff simp del: step.simps split: if_splits)
next
  case (SenderEnd t doErr)
  with assms(1) obtain sb c' where pc: "pc_of s t = Some (InSend sb)"
    and d: "sendNow_deliver P (coll s) sb doErr = Inr c'"
    and s': "s' = return_from t (s\<lparr>coll := c'\<lparr>sendMutex := False\<rparr>\<rparr>)"
    by (auto simp add: step_SenderEnd_iff simp del: step.simps)
  from pc assms(2) obtain i where "t = Go i"
    by (cases t) auto
  with s' assms(2) set_batch_deliver[OF d] show ?thesis
    by auto
qed (use assms in \<open>auto simp: step_iffs simp del: step.simps\<close>)

lemma run_stopped:
  assumes "run P evs s = Inr s'" and "loop_at s = Stopped"
  shows "loop_at s' = Stopped \<and> set (batch (coll s')) \<subseteq> set (batch (coll s))"
  using assms
proof (induction evs arbitrary: s)
  case Nil
  then show ?case by simp
next
  case (Cons e evs)
  from Cons.prems(1) obtain s1 where 1: "step P e s = Inr s1" and 2: "run P evs s1 = Inr s'"
    by (auto split: sum.splits)
  from step_stopped[OF 1 Cons.prems(2)] Cons.IH[OF 2] show ?case
    by auto
qed

lemma sending_nth:
  "i < length xs \<Longrightarrow> xs ! i = InSend sb \<Longrightarrow> concat (map sending xs) \<noteq> []"
  using concat_sending_update(1)[of i xs] by simp

lemma step_drain_inv:
  assumes st: "step P e s = Inr s'" and inv: "drain_inv s"
  shows "drain_inv s' \<or> (loop_at s' = Stopped \<and> set (batch (coll s')) \<subseteq> set (concat (attempt e s)))"
proof -
  from inv have mi: "mutex_inv s" and sh: "shutdown (coll s) = []"
    by (simp_all add: drain_inv_def)
  note mi' = step_mutex_inv[OF st mi]
  show ?thesis
  proof (cases e)
    case (SenderBegin t)
    with st have pc: "pc_of s t = Some AtLock" and free: "\<not> sendMutex (coll s)"
      and s': "s' = (if batch (coll s) = [] then return_from t s
             else enter_send t (batch (coll s)) (s\<lparr>coll := (coll s)\<lparr>sendMutex := True\<rparr>\<rparr>))"
      by (simp_all add: step_SenderBegin_iff del: step.simps)
    show ?thesis
    proof (cases t)
      case LoopT
      with pc have "loop_at s = Draining AtLock"
        by (auto split: loop_pc.splits)
      with s' LoopT mi' sh show ?thesis
        by (auto simp: drain_inv_def)
    next
      case (Go i)
      with s' have "loop_at s' = loop_at s" "batch (coll s') = batch (coll s)"
        "shutdown (coll s') = shutdown (coll s)"
        by auto
      with inv mi' show ?thesis
        by (simp add: drain_inv_def)
    qed
  next
    case (SenderEnd t doErr)
    with st obtain sb c' where pc: "pc_of s t = Some (InSend sb)"
      and d: "sendNow_deliver P (coll s) sb doErr = Inr c'"
      and s': "s' = return_from t (s\<lparr>coll := c'\<lparr>sendMutex := False\<rparr>\<rparr>)"
      by (auto simp add: step_SenderEnd_iff simp del: step.simps)
    show ?thesis
    proof (cases t)
      case LoopT
      with pc have l: "loop_at s = Draining (InSend sb)"
        by (auto split: loop_pc.splits)
      with inv have "batch (coll s) = sb"
        by (simp add: drain_inv_def)
      with set_batch_deliver[OF d] have "set (batch c') \<subseteq> set sb"
        by simp
      with s' LoopT pc show ?thesis
        by (simp add: SenderEnd)
    next
      case (Go i)
      with pc have i: "i < length (spawned s)" "spawned s ! i = InSend sb"
        by (auto split: if_splits)
      have "\<not> (\<exists>sb'. loop_at s = Draining (InSend sb'))"
      proof
        assume "\<exists>sb'. loop_at s = Draining (InSend sb')"
        then obtain sb' where "loop_at s = Draining (InSend sb')" ..
        then have "length (in_flight s) = length (concat (map sending (spawned s))) + 1"
          by (simp add: in_flight_def)
        moreover from sending_nth[OF i] have "length (concat (map sending (spawned s))) \<noteq> 0"
          by simp
        ultimately show False
          using mi by (simp add: mutex_inv_def split: if_splits)
      qed
      moreover have "loop_at s' = loop_at s" "shutdown (coll s') = shutdown (coll s)"
        using s' Go sendNow_deliver_frame(6)[OF d] by auto
      ultimately show ?thesis
        using inv mi' drain_ok_batch[of "loop_at s" "batch (coll s')" "batch (coll s)"]
        by (auto simp: drain_inv_def)
    qed
  next
    case (Arrival sp now)
    with st obtain c' n where a: "append_span (coll s) sp = Inr (c', n)" and r: "loop_at s = Running"
      and s': "s' = (if batchSize c' \<le> n
                then s\<lparr>coll := scheduleNextSend c' now, spawned := spawned s @ [AtLock]\<rparr>
                else s\<lparr>coll := c'\<rparr>)"
      by (auto simp: step_Arrival_iff simp del: step.simps)
    from s' r sh append_span_frame(6)[OF a] mi' show ?thesis
      by (auto simp: drain_inv_def scheduleNextSend_def)
  qed (use st inv mi' in \<open>auto simp: step_iffs drain_inv_def scheduleNextSend_def
          simp del: step.simps split: if_splits\<close>)
qed

lemma run_drained:
  assumes "run P evs s = Inr s'" and "drain_inv s" and "shutdown (coll s') \<noteq> []"
  shows "loop_at s' = Stopped \<and> set (batch (coll s')) \<subseteq> set (concat (attempted P evs s))"
  using assms
proof (induction evs arbitrary: s)
  case Nil
  then show ?case by (simp add: drain_inv_def)
next
  case (Cons e evs)
  from Cons.prems(1) obtain s1 where 1: "step P e s = Inr s1" and 2: "run P evs s1 = Inr s'"
    by (auto split: sum.splits)
  from step_drain_inv[OF 1 Cons.prems(2)] show ?case
  proof
    assume "drain_inv s1"
    from Cons.IH[OF 2 this Cons.prems(3)] 1 show ?thesis
      by auto
  next
    assume st: "loop_at s1 = Stopped \<and> set (batch (coll s1)) \<subseteq> set (concat (attempt e s))"
    with run_stopped[OF 2] 1 show ?thesis
      by auto
  qed
qed

lemma step_begun:
  assumes "step P e s = Inr s'"
  shows "(if e = SenderBegin LoopT then \<not> begun s \<and> begun s' else begun s' = begun s)"
proof (cases e)
  case (SenderBegin t)
  with assms show ?thesis
    by (cases t)
       (auto simp: step_SenderBegin_iff begun_def simp del: step.simps split: loop_pc.splits if_splits)
next
  case (SenderEnd t doErr)
  with assms obtain sb c' where pc: "pc_of s t = Some (InSend sb)"
    and s': "s' = return_from t (s\<lparr>coll := c'\<lparr>sendMutex := False\<rparr>\<rparr>)"
    by (auto simp add: step_SenderEnd_iff simp del: step.simps)
  then show ?thesis
    by (cases t) (auto simp: SenderEnd begun_def split: loop_pc.splits)
qed (use assms in \<open>auto simp: step_iffs begun_def simp del: step.simps split: if_splits\<close>)

lemma run_begun:
  assumes "run P evs s = Inr s'"
  shows "count_list evs (SenderBegin LoopT) + (if begun s then 1 else 0) = (if begun s' then 1 else 0)"
  using assms
proof (induction evs arbitrary: s)
  case Nil
  then show ?case by simp
next
  case (Cons e evs)
  from Cons.prems(1) obtain s1 where 1: "step P e s = Inr s1" and 2: "run P evs s1 = Inr s'"
    by (auto split: sum.splits)
  from step_begun[OF 1] Cons.IH[OF 2] show ?case
    by (auto split: if_splits)
qed

subsection \<open>The deadline\<close>

lemma step_nextSend:
  assumes "step P e s = Inr s'"
  shows "nextSend (coll s') = nextSend (coll s) \<or>
         (\<exists>r \<in> set (readings e). nextSend (coll s') = r + batchInterval (coll s))"
proof (cases e)
  case (Arrival sp now)
  with assms obtain c' n where a: "append_span (coll s) sp = Inr (c', n)"
    and s': "s' = (if batchSize c' \<le> n
              then s\<lparr>coll := scheduleNextSend c' now, spawned := spawned s @ [AtLock]\<rparr>
              else s\<lparr>coll := c'\<rparr>)"
    by (auto simp: step_Arrival_iff simp del: step.simps)
  from s' append_span_frame(3,8)[OF a] show ?thesis
    by (auto simp: Arrival scheduleNextSend_def)
next
  case (SenderEnd t doErr)
  with assms obtain sb c' where d: "sendNow_deliver P (coll s) sb doErr = Inr c'"
    and s': "s' = return_from t (s\<lparr>coll := c'\<lparr>sendMutex := False\<rparr>\<rparr>)"
    by (auto simp add: step_SenderEnd_iff simp del: step.simps)
  from s' sendNow_deliver_frame(8)[OF d] show ?thesis
    by simp
qed (use assms in \<open>auto simp: step_iffs scheduleNextSend_def simp del: step.simps split: if_splits\<close>)

lemma run_nextSend_lower:
  assumes "run P evs s = Inr s'" and "d \<le> nextSend (coll s)"
    and "\<forall>r \<in> set (concat (map readings evs)). d \<le> r + batchInterval (coll s)"
  shows "d \<le> nextSend (coll s')"
  using assms
proof (induction evs arbitrary: s)
  case Nil
  then show ?case by simp
next
  case (Cons e evs)
  from Cons.prems(1) obtain s1 where 1: "step P e s = Inr s1" and 2: "run P evs s1 = Inr s'"
    by (auto split: sum.splits)
  from step_nextSend[OF 1] Cons.prems(2,3) have "d \<le> nextSend (coll s1)"
    by auto
  moreover from Cons.prems(3) step_cfg(3)[OF 1]
  have "\<forall>r \<in> set (concat (map readings evs)). d \<le> r + batchInterval (coll s1)"
    by simp
  ultimately show ?case
    using Cons.IH[OF 2] by blast
qed

subsection \<open>Eviction\<close>

lemma disposed_append [simp]: "disposed (xs @ ys) = disposed xs + disposed ys"
  by (induction xs rule: disposed.induct) simp_all

lemma append_span_ok:
  assumes "0 \<le> maxBacklog c"
  shows "append_span c sp =
    Inr (c\<lparr>logger := logger c @
               (if maxBacklog c < int (length (batch c)) + 1
                then [Disposing (int (length (batch c)) + 1 - maxBacklog c)] else []),
            batch := drop (length (batch c) + 1 - nat (maxBacklog c)) (batch c @ [sp])\<rparr>,
         int (length (drop (length (batch c) + 1 - nat (maxBacklog c)) (batch c @ [sp]))))"
proof -
  have "nat (int (length (batch c)) + 1 - maxBacklog c) = length (batch c) + 1 - nat (maxBacklog c)"
    using assms by linarith
  then have "nat (1 + int (length (batch c)) - maxBacklog c) = Suc (length (batch c)) - nat (maxBacklog c)"
    by (simp add: add.commute)
  with assms show ?thesis
    by (simp add: append_span_def Let_def add.commute)
qed

lemma step_without_delivery:
  assumes st: "step P e s = Inr s'" and nd: "flushed P e s = []"
    and m: "0 \<le> maxBacklog (coll s)" and l: "length (batch (coll s)) \<le> nat (maxBacklog (coll s))"
  shows "batch (coll s') =
           drop (length (batch (coll s) @ arrival e) - nat (maxBacklog (coll s)))
             (batch (coll s) @ arrival e)"
    and "disposed (logger (coll s')) =
           disposed (logger (coll s))
             + int (length (batch (coll s) @ arrival e) - nat (maxBacklog (coll s)))"
proof -
  have "batch (coll s') =
           drop (length (batch (coll s) @ arrival e) - nat (maxBacklog (coll s)))
             (batch (coll s) @ arrival e) \<and>
        disposed (logger (coll s')) =
           disposed (logger (coll s))
             + int (length (batch (coll s) @ arrival e) - nat (maxBacklog (coll s)))"
  proof (cases e)
    case (Arrival sp now)
    note ap = append_span_ok[OF m, of sp]
    from st Arrival ap have b: "batch (coll s') =
        drop (length (batch (coll s)) + 1 - nat (maxBacklog (coll s))) (batch (coll s) @ [sp])"
      and lg: "logger (coll s') = logger (coll s) @
               (if maxBacklog (coll s) < int (length (batch (coll s))) + 1
                then [Disposing (int (length (batch (coll s))) + 1 - maxBacklog (coll s))] else [])"
      by (auto simp: step_Arrival_iff scheduleNextSend_def simp del: step.simps split: if_splits)
    have "disposed (logger (coll s')) = disposed (logger (coll s))
            + int (length (batch (coll s)) + 1 - nat (maxBacklog (coll s)))"
      using lg m by (auto simp: nat_le_iff)
    with b show ?thesis
      by (simp add: Arrival)
  next
    case (SenderEnd t doErr)
    with st obtain sb c' where pc: "pc_of s t = Some (InSend sb)"
      and d: "sendNow_deliver P (coll s) sb doErr = Inr c'"
      and s': "s' = return_from t (s\<lparr>coll := c'\<lparr>sendMutex := False\<rparr>\<rparr>)"
      by (auto simp add: step_SenderEnd_iff simp del: step.simps)
    from d show ?thesis
    proof (cases rule: sendNow_deliver_cases)
      case ok
      with nd pc SenderEnd show ?thesis
        by simp
    next
      case (failed err)
      with s' l show ?thesis
        by (simp add: SenderEnd)
    qed
  qed (use st l in \<open>auto simp: step_iffs scheduleNextSend_def simp del: step.simps split: if_splits\<close>)
  then show "batch (coll s') =
           drop (length (batch (coll s) @ arrival e) - nat (maxBacklog (coll s)))
             (batch (coll s) @ arrival e)"
    and "disposed (logger (coll s')) =
           disposed (logger (coll s))
             + int (length (batch (coll s) @ arrival e) - nat (maxBacklog (coll s)))"
    by simp_all
qed

lemma evict_count:
  fixes L m a z :: nat
  assumes "L \<le> m"
  shows "int (L + a - m) + int (L + a - (L + a - m) + z - m) = int (L + a + z - m)"
  using assms by arith

lemma drop_drop_append:
  assumes "length xs \<le> m"
  shows "drop (length (drop (length (xs @ ys) - m) (xs @ ys) @ zs) - m)
           (drop (length (xs @ ys) - m) (xs @ ys) @ zs)
         = drop (length (xs @ ys @ zs) - m) (xs @ ys @ zs)"
proof -
  let ?d = "length (xs @ ys) - m"
  have d: "?d \<le> length (xs @ ys)"
    by simp
  have "drop (length (drop ?d (xs @ ys) @ zs) - m) (drop ?d (xs @ ys) @ zs)
      = drop (length (drop ?d (xs @ ys) @ zs) - m) (drop ?d ((xs @ ys) @ zs))"
    using d by simp
  also have "\<dots> = drop (length (drop ?d (xs @ ys) @ zs) - m + ?d) ((xs @ ys) @ zs)"
    by (simp only: drop_drop)
  also have "length (drop ?d (xs @ ys) @ zs) - m + ?d = length (xs @ ys @ zs) - m"
    using assms by (cases "length (xs @ ys) \<le> m") auto
  finally show ?thesis
    by simp
qed

lemma run_without_delivery:
  assumes "run P evs s = Inr s'" and "delivered P evs s = []"
    and "0 \<le> maxBacklog (coll s)" and "length (batch (coll s)) \<le> nat (maxBacklog (coll s))"
  shows "batch (coll s') =
           drop (length (batch (coll s) @ appended evs) - nat (maxBacklog (coll s)))
             (batch (coll s) @ appended evs)
         \<and> disposed (logger (coll s')) =
           disposed (logger (coll s))
             + int (length (batch (coll s) @ appended evs) - nat (maxBacklog (coll s)))"
  using assms
proof (induction evs arbitrary: s)
  case Nil
  then show ?case by (simp add: appended_def)
next
  case (Cons e evs)
  let ?m = "nat (maxBacklog (coll s))"
  from Cons.prems(1) obtain s1 where 1: "step P e s = Inr s1" and 2: "run P evs s1 = Inr s'"
    by (auto split: sum.splits)
  from Cons.prems(2) 1 have nd: "flushed P e s = []" and nds: "delivered P evs s1 = []"
    by simp_all
  note one = step_without_delivery[OF 1 nd Cons.prems(3,4)]
  have m1: "maxBacklog (coll s1) = maxBacklog (coll s)"
    by (rule step_cfg(1)[OF 1])
  have l1: "length (batch (coll s1)) \<le> nat (maxBacklog (coll s1))"
    using one(1) Cons.prems(4) m1 by (cases e) auto
  from Cons.IH[OF 2 nds] Cons.prems(3) l1 m1
  have b': "batch (coll s') = drop (length (batch (coll s1) @ appended evs) - ?m)
               (batch (coll s1) @ appended evs)"
    and d': "disposed (logger (coll s')) = disposed (logger (coll s1))
               + int (length (batch (coll s1) @ appended evs) - ?m)"
    by simp_all
  have ap: "appended (e # evs) = arrival e @ appended evs"
    by (simp add: appended_def)
  have "batch (coll s') = drop (length (batch (coll s) @ appended (e # evs)) - ?m)
               (batch (coll s) @ appended (e # evs))"
    unfolding b' one(1) ap using drop_drop_append[OF Cons.prems(4)] by simp
  moreover have "disposed (logger (coll s')) = disposed (logger (coll s))
               + int (length (batch (coll s) @ appended (e # evs)) - ?m)"
  proof -
    define L where "L = length (batch (coll s))"
    define a where "a = length (arrival e)"
    define z where "z = length (appended evs)"
    have Lm: "L \<le> ?m"
      using Cons.prems(4) by (simp add: L_def)
    have len1: "length (batch (coll s1) @ appended evs) = L + a - (L + a - ?m) + z"
      unfolding one(1) by (simp add: L_def a_def z_def)
    have "disposed (logger (coll s'))
            = disposed (logger (coll s)) + (int (L + a - ?m) + int (L + a - (L + a - ?m) + z - ?m))"
      unfolding d' one(2) len1 by (simp add: L_def a_def)
    also have "\<dots> = disposed (logger (coll s)) + int (L + a + z - ?m)"
      by (simp only: evict_count[OF Lm])
    also have "L + a + z = length (batch (coll s) @ appended (e # evs))"
      by (simp add: L_def a_def z_def ap)
    finally show ?thesis .
  qed
  ultimately show ?case
    by simp
qed

subsection \<open>The shutdown channel\<close>

lemma step_shutdown:
  assumes "step P e s = Inr s'"
  shows "set (shutdown (coll s')) \<subseteq> insert None (set (shutdown (coll s)))"
proof (cases e)
  case (Arrival sp now)
  with assms obtain c' n where a: "append_span (coll s) sp = Inr (c', n)"
    and s': "s' = (if batchSize c' \<le> n
              then s\<lparr>coll := scheduleNextSend c' now, spawned := spawned s @ [AtLock]\<rparr>
              else s\<lparr>coll := c'\<rparr>)"
    by (auto simp: step_Arrival_iff simp del: step.simps)
  from s' append_span_frame(6)[OF a] show ?thesis
    by (auto simp: scheduleNextSend_def)
next
  case (SenderBegin t)
  with assms show ?thesis
    by (auto simp: step_SenderBegin_iff coll_return_from loop_err_def simp del: step.simps
        split: if_splits)
next
  case (SenderEnd t doErr)
  with assms obtain sb c' where d: "sendNow_deliver P (coll s) sb doErr = Inr c'"
    and s': "s' = return_from t (s\<lparr>coll := c'\<lparr>sendMutex := False\<rparr>\<rparr>)"
    by (auto simp add: step_SenderEnd_iff simp del: step.simps)
  from s' sendNow_deliver_frame(6)[OF d] show ?thesis
    by (auto simp: coll_return_from loop_err_def)
qed (use assms in \<open>auto simp: step_iffs scheduleNextSend_def simp del: step.simps split: if_splits\<close>)

lemma run_shutdown:
  assumes "run P evs s = Inr s'"
  shows "set (shutdown (coll s')) \<subseteq> insert None (set (shutdown (coll s)))"
  using assms
proof (induction evs arbitrary: s)
  case Nil
  then show ?case by auto
next
  case (Cons e evs)
  from Cons.prems(1) obtain s1 where 1: "step P e s = Inr s1" and 2: "run P evs s1 = Inr s'"
    by (auto split: sum.splits)
  from step_shutdown[OF 1] Cons.IH[OF 2] show ?case
    by auto
qed

subsection \<open>Further facts used by the claims\<close>

lemma idle_mutex_inv: "idle s \<Longrightarrow> mutex_inv s"
  by (simp add: idle_def mutex_inv_def)

lemma Collect_nil:
  "Collect_span P sp now s = Inr (r, s') \<Longrightarrow> r = None"
  by (auto simp: Collect_span_def split: sum.splits)

lemma delivered_loop_events:
  "list_all loop_event evs \<Longrightarrow> delivered P evs s = []"
proof (induction evs arbitrary: s)
  case Nil
  then show ?case by simp
next
  case (Cons e evs)
  then show ?case
    by (cases e) (auto split: sum.splits)
qed

lemma length_batch_deliver:
  assumes "sendNow_deliver P c sb r = Inr c'"
  shows "length (batch c') \<le> length (batch c)"
  using assms by (cases rule: sendNow_deliver_cases) auto

lemma step_backlog_bound:
  assumes st: "step P e s = Inr s'" and m: "0 \<le> maxBacklog (coll s)"
    and l: "length (batch (coll s)) \<le> nat (maxBacklog (coll s))"
  shows "length (batch (coll s')) \<le> nat (maxBacklog (coll s'))"
proof (cases e)
  case (Arrival sp now)
  note ap = append_span_ok[OF m, of sp]
  from st Arrival ap have "batch (coll s') =
        drop (length (batch (coll s)) + 1 - nat (maxBacklog (coll s))) (batch (coll s) @ [sp])"
    by (auto simp: step_Arrival_iff scheduleNextSend_def simp del: step.simps split: if_splits)
  with step_cfg(1)[OF st] show ?thesis
    by simp
next
  case (SenderEnd t doErr)
  with st obtain sb c' where d: "sendNow_deliver P (coll s) sb doErr = Inr c'"
    and s': "s' = return_from t (s\<lparr>coll := c'\<lparr>sendMutex := False\<rparr>\<rparr>)"
    by (auto simp add: step_SenderEnd_iff simp del: step.simps)
  from s' length_batch_deliver[OF d] l step_cfg(1)[OF st] show ?thesis
    by simp
qed (use st l in \<open>auto simp: step_iffs scheduleNextSend_def simp del: step.simps split: if_splits\<close>)

lemma write_spans_fails:
  assumes "sp \<in> set spans" and "isl (Write P sp)"
  shows "\<exists>msg. write_spans P spans = Inl (Panicked msg)"
  using assms
proof (induction spans)
  case Nil
  then show ?case by simp
next
  case (Cons a spans)
  then show ?case
    by (cases "Write P a") (auto split: sum.splits)
qed

lemma write_spans_Inl:
  "write_spans P spans = Inl f \<Longrightarrow> \<exists>msg. f = Panicked msg"
  by (induction spans arbitrary: f) (auto split: sum.splits)

lemma sdiv_ten:
  fixes b :: int
  assumes "0 < b sdiv 10"
  shows "10 * (b sdiv 10) \<le> b \<and> b < 10 * (b sdiv 10) + 10"
proof -
  from assms have "0 < b"
    by (cases "b < 0"; cases "b = 0") (auto simp: signed_divide_int_def sgn_if split: if_splits)
  then have "b sdiv 10 = b div 10"
    by (simp add: signed_divide_int_def)
  moreover have "10 * (b div 10) \<le> b \<and> b < 10 * (b div 10) + 10"
    by presburger
  ultimately show ?thesis
    by simp
qed

lemma step_Arrival_fired:
  assumes "step P (Arrival sp now) s = Inr s'" and "batchSize (coll s) \<le> currentBatchSize (coll s')"
  shows "nextSend (coll s') = now + batchInterval (coll s) \<and> spawned s' = spawned s @ [AtLock]"
proof -
  from assms(1) obtain c' n where a: "append_span (coll s) sp = Inr (c', n)"
    and s': "s' = (if batchSize c' \<le> n
              then s\<lparr>coll := scheduleNextSend c' now, spawned := spawned s @ [AtLock]\<rparr>
              else s\<lparr>coll := c'\<rparr>)"
    by (auto simp: step_Arrival_iff simp del: step.simps)
  from a have n: "n = int (length (batch c'))"
    by (auto simp: append_span_def Let_def split: if_splits)
  from s' n assms(2) append_span_frame[OF a] show ?thesis
    by (auto simp: currentBatchSize_def scheduleNextSend_def split: if_splits)
qed

lemma foldl_options_url:
  assumes "\<forall>opt \<in> set options. \<forall>c. url (opt c) = url c"
  shows "url (foldl (\<lambda>c option. option c) c0 options) = url c0"
  using assms by (induction options arbitrary: c0) simp_all

lemma step_batch_length:
  assumes "step P e s = Inr s'"
  shows "length (batch (coll s')) \<le> length (batch (coll s)) + length (arrival e)"
proof (cases e)
  case (Arrival sp now)
  with assms obtain c' n where a: "append_span (coll s) sp = Inr (c', n)"
    and s': "s' = (if batchSize c' \<le> n
              then s\<lparr>coll := scheduleNextSend c' now, spawned := spawned s @ [AtLock]\<rparr>
              else s\<lparr>coll := c'\<rparr>)"
    by (auto simp: step_Arrival_iff simp del: step.simps)
  from a have "length (batch c') \<le> length (batch (coll s)) + 1"
    by (auto simp: append_span_def Let_def split: if_splits)
  with s' show ?thesis
    by (auto simp: Arrival scheduleNextSend_def)
next
  case (SenderEnd t doErr)
  with assms obtain sb c' where d: "sendNow_deliver P (coll s) sb doErr = Inr c'"
    and s': "s' = return_from t (s\<lparr>coll := c'\<lparr>sendMutex := False\<rparr>\<rparr>)"
    by (auto simp add: step_SenderEnd_iff simp del: step.simps)
  from s' length_batch_deliver[OF d] show ?thesis
    by simp
qed (use assms in \<open>auto simp: step_iffs scheduleNextSend_def simp del: step.simps split: if_splits\<close>)

text \<open>A run that appends no more spans than the backlog has room for never overflows.\<close>

lemma no_overflow_within_backlog:
  assumes "int (length (batch (coll s)) + length (appended evs)) \<le> maxBacklog (coll s)"
  shows "no_overflow P evs s"
  using assms
proof (induction evs arbitrary: s)
  case Nil
  then show ?case by simp
next
  case (Cons e evs)
  have ap: "appended (e # evs) = arrival e @ appended evs"
    by (simp add: appended_def)
  have fit: "fits e s"
    using Cons.prems by (cases e) (simp_all add: appended_def)
  have "no_overflow P evs s1" if st: "step P e s = Inr s1" for s1
  proof (rule Cons.IH)
    from step_batch_length[OF st] Cons.prems step_cfg(1)[OF st] ap
    show "int (length (batch (coll s1)) + length (appended evs)) \<le> maxBacklog (coll s1)"
      by simp
  qed
  with fit show ?case
    by (auto split: sum.splits)
qed

section \<open>The claims\<close>

subsection \<open>C1: what Close returns\<close>

text \<open>
  C1 says that \<open>Close\<close> blocks until the final flush has completed and returns the error
  of that flush when it failed. The first half holds (see C7). The second does not: the
  loop sends its \<open>err\<close> on \<open>shutdown\<close>, and that variable is never assigned, so whatever
  the run and whatever the outcome of the final flush, \<open>Close\<close> returns \<open>nil\<close>.
\<close>

theorem Close_returns_nil:
  assumes "run P evs s = Inr s'" and "shutdown (coll s) = []"
    and "Close_return s' = Inr (err, s'')"
  shows "err = None"
proof -
  from assms(3) have "err \<in> set (shutdown (coll s'))"
    by (auto simp: Close_return_def split: list.splits)
  with run_shutdown[OF assms(1)] assms(2) show ?thesis
    by auto
qed

text \<open>
  The run \<open>failed_drain\<close>: the final flush of one span is refused, the refusal is logged,
  the span stays in the buffer, and \<open>Close\<close> returns \<open>nil\<close>.
\<close>

theorem Close_nil_after_failed_drain:
  "logger (coll (projr (run ok_ports failed_drain (small 100 1000)))) = [LogErr ''connection refused'']
   \<and> batch (coll (projr (run ok_ports failed_drain (small 100 1000)))) = [Span 1]
   \<and> fst (projr (Close_return (projr (run ok_ports failed_drain (small 100 1000))))) = None"
proof -
  let ?s' = "projr (run ok_ports failed_drain (small 100 1000))"
  have r: "run ok_ports failed_drain (small 100 1000) = Inr ?s'"
    by (simp add: failed_drain_def fixture_defs model_defs)
  have sh: "shutdown (coll (small 100 1000)) = []"
    by (simp add: fixture_defs model_defs)
  have c: "Close_return ?s' = Inr (fst (projr (Close_return ?s')), snd (projr (Close_return ?s')))"
    by (simp add: failed_drain_def fixture_defs model_defs)
  have "logger (coll ?s') = [LogErr ''connection refused'']" "batch (coll ?s') = [Span 1]"
    by (simp_all add: failed_drain_def fixture_defs model_defs)
  with Close_returns_nil[OF r sh c] show ?thesis
    by simp
qed

subsection \<open>C2: successful flushes deliver the spans in the order of their arrival\<close>

text \<open>
  C2: in a run that starts with an empty buffer and no send in flight, and in which no
  arrival overflows the backlog, the flushes delivered so far, concatenated, followed by
  what is still buffered, are the spans appended, in order; so once the buffer has been
  emptied the delivered spans are the appended ones. Whenever a send then ends in success,
  the first \<open>len(sendBatch)\<close> elements of the buffer are the spans it sent, and they are
  what it removes. Arrivals during the unlocked window of a send are allowed here: the
  claim's second proviso is not needed.
\<close>

theorem flushes_keep_order:
  assumes "run P evs s = Inr s'" and "idle s" and "batch (coll s) = []"
    and "no_overflow P evs s"
  shows "concat (delivered P evs s) @ batch (coll s') = appended evs
    \<and> (\<forall>t doErr sendBatch s''.
          step P (SenderEnd t doErr) s' = Inr s'' \<and> flushed P (SenderEnd t doErr) s' = [sendBatch]
          \<longrightarrow> take (length sendBatch) (batch (coll s')) = sendBatch
              \<and> batch (coll s'') = drop (length sendBatch) (batch (coll s')))"
proof -
  from run_conserves[OF assms(1) idle_send_inv[OF assms(2)] assms(4)] assms(3)
  have inv: "send_inv s'" and all: "concat (delivered P evs s) @ batch (coll s') = appended evs"
    by simp_all
  have "take (length sb) (batch (coll s')) = sb \<and> batch (coll s'') = drop (length sb) (batch (coll s'))"
    if st: "step P (SenderEnd t doErr) s' = Inr s''" and fl: "flushed P (SenderEnd t doErr) s' = [sb]"
    for t doErr sb s''
  proof -
    from step_conserves[OF st inv] fl have "sb @ batch (coll s'') = batch (coll s')"
      by simp
    then show ?thesis
      by (metis append_eq_conv_conj)
  qed
  with all show ?thesis
    by blast
qed

theorem flushes_keep_order_witness:
  "concat (delivered ok_ports windowed (small 2 10))
     @ batch (coll (projr (run ok_ports windowed (small 2 10)))) = appended windowed
   \<and> concat (delivered ok_ports windowed (small 2 10)) = [Span 1, Span 2]
   \<and> take (length [Span 3]) (batch (coll (projr (run ok_ports windowed (small 2 10))))) = [Span 3]
   \<and> batch (coll (projr (step ok_ports (SenderEnd (Go 1) None)
                          (projr (run ok_ports windowed (small 2 10))))))
       = drop (length [Span 3]) (batch (coll (projr (run ok_ports windowed (small 2 10)))))"
proof -
  let ?s' = "projr (run ok_ports windowed (small 2 10))"
  let ?s'' = "projr (step ok_ports (SenderEnd (Go 1) None) ?s')"
  have r: "run ok_ports windowed (small 2 10) = Inr ?s'"
    by (simp add: windowed_def fixture_defs model_defs)
  have i: "idle (small 2 10)" and b: "batch (coll (small 2 10)) = []"
    by (simp_all add: idle_def fixture_defs model_defs)
  have n: "no_overflow ok_ports windowed (small 2 10)"
    by (simp add: windowed_def fixture_defs model_defs)
  have st: "step ok_ports (SenderEnd (Go 1) None) ?s' = Inr ?s''"
    by (simp add: windowed_def fixture_defs model_defs)
  have fl: "flushed ok_ports (SenderEnd (Go 1) None) ?s' = [[Span 3]]"
    by (simp add: windowed_def fixture_defs model_defs)
  have d: "concat (delivered ok_ports windowed (small 2 10)) = [Span 1, Span 2]"
    by (simp add: windowed_def fixture_defs model_defs)
  from flushes_keep_order[OF r i b n] st fl d show ?thesis
    by blast
qed

text \<open>
  A remark on the first proviso of C2. In the run \<open>overflow_in_flight\<close> the arrival of
  span 4 overflows the backlog while the send of spans 1 and 2 is in flight, and evicts
  span 1. The send succeeds and removes the first two elements of the buffer, which are
  now spans 2 and 3: span 3 is removed although it was never sent, and the sink hears of
  one disposal only.
\<close>

lemma removal_by_count_after_overflow:
  "delivered ok_ports overflow_in_flight (small 2 3) = [[Span 1, Span 2]]
   \<and> map_sum id (\<lambda>s. batch (coll s)) (run ok_ports (take 6 overflow_in_flight) (small 2 3))
       = Inr [Span 2, Span 3, Span 4]
   \<and> map_sum id (\<lambda>s. (in_flight s, logger (coll s))) (run ok_ports overflow_in_flight (small 2 3))
       = Inr ([[Span 4]], [Disposing 1])"
  by (simp add: overflow_in_flight_def fixture_defs model_defs)

subsection \<open>C3: a failed flush\<close>

text \<open>
  C3 ends with: the unsent spans are included in the next flush attempt. The run
  \<open>refused_then_evicted\<close> refutes this for a backlog of one span: the send of span 1 is
  refused and the buffer is left as it was, then span 2 arrives and evicts span 1, and
  the next attempt sends span 2 alone.
\<close>

theorem unsent_span_evicted_before_next_flush:
  "map_sum id in_flight (run ok_ports (take 3 refused_then_evicted) (small 1 1)) = Inr [[Span 1]]
   \<and> map_sum id (\<lambda>s. batch (coll s)) (run ok_ports (take 4 refused_then_evicted) (small 1 1))
       = Inr [Span 1]
   \<and> map_sum id in_flight (run ok_ports refused_then_evicted (small 1 1)) = Inr [[Span 2]]"
  by (simp add: refused_then_evicted_def fixture_defs model_defs)

text \<open>
  C3 as amended. Whenever the \<open>send\<close> of a flush attempt returns an error, the attempt
  ends by appending that error to the sink and unlocking \<open>sendMutex\<close>, and changes
  nothing else: the buffer is what it was and nothing is delivered. \<open>Collect\<close> returns
  \<open>nil\<close> whenever it returns. If moreover no arrival has overflowed the backlog since a
  moment without a send in flight (such as the moment before the failed attempt took its
  snapshot), and none does until the next attempt takes its own, then the unsent spans
  are the head of the buffer, and the snapshot of the next attempt is the buffer of the
  failed one followed by the spans that arrived meanwhile.
\<close>

theorem failed_flush_keeps_buffer:
  "(\<forall>s t sendBatch doErr err.
      pc_of s t = Some (InSend sendBatch) \<and> send P (coll s) sendBatch doErr = Inr (Some err)
      \<longrightarrow> step P (SenderEnd t doErr) s
            = Inr (return_from t (s\<lparr>coll := (coll s)\<lparr>logger := logger (coll s) @ [LogErr err],
                                                     sendMutex := False\<rparr>\<rparr>))
          \<and> batch (coll (return_from t (s\<lparr>coll := (coll s)\<lparr>logger := logger (coll s) @ [LogErr err],
                                                     sendMutex := False\<rparr>\<rparr>))) = batch (coll s)
          \<and> flushed P (SenderEnd t doErr) s = [])
   \<and> (\<forall>sp now s r s'. Collect_span P sp now s = Inr (r, s') \<longrightarrow> r = None)
   \<and> (\<forall>evs0 s0 s t sendBatch doErr err s1 evs s2 t' s3.
        run P evs0 s0 = Inr s \<and> idle s0 \<and> no_overflow P evs0 s0
        \<and> pc_of s t = Some (InSend sendBatch) \<and> send P (coll s) sendBatch doErr = Inr (Some err)
        \<and> step P (SenderEnd t doErr) s = Inr s1
        \<and> run P evs s1 = Inr s2 \<and> list_all loop_event evs \<and> no_overflow P evs s1
        \<and> step P (SenderBegin t') s2 = Inr s3
        \<longrightarrow> prefix sendBatch (batch (coll s)) \<and> in_flight s3 = [batch (coll s) @ appended evs])"
proof -
  have keep: "step P (SenderEnd t doErr) s
            = Inr (return_from t (s\<lparr>coll := (coll s)\<lparr>logger := logger (coll s) @ [LogErr err],
                                                     sendMutex := False\<rparr>\<rparr>))
          \<and> batch (coll (return_from t (s\<lparr>coll := (coll s)\<lparr>logger := logger (coll s) @ [LogErr err],
                                                     sendMutex := False\<rparr>\<rparr>))) = batch (coll s)
          \<and> flushed P (SenderEnd t doErr) s = []"
    if "pc_of s t = Some (InSend sendBatch)" and "send P (coll s) sendBatch doErr = Inr (Some err)"
    for s t sendBatch doErr err
    using that by (simp add: sendNow_deliver_def)
  have retry: "prefix sendBatch (batch (coll s)) \<and> in_flight s3 = [batch (coll s) @ appended evs]"
    if reach: "run P evs0 s0 = Inr s" "idle s0" "no_overflow P evs0 s0"
      and fail: "pc_of s t = Some (InSend sendBatch)" "send P (coll s) sendBatch doErr = Inr (Some err)"
      and later: "step P (SenderEnd t doErr) s = Inr s1" "run P evs s1 = Inr s2"
        "list_all loop_event evs" "no_overflow P evs s1"
      and "next": "step P (SenderBegin t') s2 = Inr s3"
    for evs0 s0 s t sendBatch doErr err s1 evs s2 t' s3
  proof -
    from run_conserves[OF reach(1) idle_send_inv[OF reach(2)] reach(3)]
    have inv: "send_inv s"
      by simp
    from keep[OF fail] later(1) have b1: "batch (coll s1) = batch (coll s)"
      by (simp del: step.simps flushed.simps)
    from in_flight_split[OF fail(1)] obtain pre post where
      "in_flight s = pre @ sending (InSend sendBatch) @ post"
      by metis
    with inv have pre: "prefix sendBatch (batch (coll s))" and ne: "sendBatch \<noteq> []"
      by (simp_all add: send_inv_def)
    from step_conserves[OF later(1) inv] have inv1: "send_inv s1"
      by simp
    from run_conserves[OF later(2) inv1 later(4)] delivered_loop_events[OF later(3)]
    have inv2: "send_inv s2" and b2: "batch (coll s2) = batch (coll s1) @ appended evs"
      by simp_all
    from pre ne have "batch (coll s) \<noteq> []"
      by auto
    with b1 b2 have "batch (coll s2) \<noteq> []"
      by simp
    with step_SenderBegin_in_flight(1)[OF "next"] inv2 b1 b2
    have "in_flight s3 = [batch (coll s) @ appended evs]"
      by (simp add: send_inv_def)
    with pre show ?thesis
      by simp
  qed
  have A: "\<forall>s t sendBatch doErr err.
      pc_of s t = Some (InSend sendBatch) \<and> send P (coll s) sendBatch doErr = Inr (Some err)
      \<longrightarrow> step P (SenderEnd t doErr) s
            = Inr (return_from t (s\<lparr>coll := (coll s)\<lparr>logger := logger (coll s) @ [LogErr err],
                                                     sendMutex := False\<rparr>\<rparr>))
          \<and> batch (coll (return_from t (s\<lparr>coll := (coll s)\<lparr>logger := logger (coll s) @ [LogErr err],
                                                     sendMutex := False\<rparr>\<rparr>))) = batch (coll s)
          \<and> flushed P (SenderEnd t doErr) s = []"
    by (intro allI impI, elim conjE, rule keep)
  have B: "\<forall>sp now s r s'. Collect_span P sp now s = Inr (r, s') \<longrightarrow> r = None"
    by (intro allI impI, rule Collect_nil)
  have C: "\<forall>evs0 s0 s t sendBatch doErr err s1 evs s2 t' s3.
        run P evs0 s0 = Inr s \<and> idle s0 \<and> no_overflow P evs0 s0
        \<and> pc_of s t = Some (InSend sendBatch) \<and> send P (coll s) sendBatch doErr = Inr (Some err)
        \<and> step P (SenderEnd t doErr) s = Inr s1
        \<and> run P evs s1 = Inr s2 \<and> list_all loop_event evs \<and> no_overflow P evs s1
        \<and> step P (SenderBegin t') s2 = Inr s3
        \<longrightarrow> prefix sendBatch (batch (coll s)) \<and> in_flight s3 = [batch (coll s) @ appended evs]"
    by (intro allI impI, elim conjE, rule retry)
  from A B C show ?thesis
    by (intro conjI)
qed

text \<open>
  The run \<open>refused_then_retried\<close> with a backlog of ten: the send of spans 1 and 2 is
  refused while span 3 has arrived; span 4 arrives; the next attempt sends 1, 2, 3, 4.
\<close>

theorem failed_flush_keeps_buffer_witness:
  "batch (coll (projr (step ok_ports (SenderEnd (Go 0) (Some ''connection refused''))
                  (projr (run ok_ports refused_then_retried (small 2 10))))))
     = [Span 1, Span 2, Span 3]
   \<and> logger (coll (projr (step ok_ports (SenderEnd (Go 0) (Some ''connection refused''))
                  (projr (run ok_ports refused_then_retried (small 2 10))))))
     = [LogErr ''connection refused'']
   \<and> in_flight (projr (step ok_ports (SenderBegin (Go 1))
        (projr (run ok_ports [Arrival (Span 4) 40]
          (projr (step ok_ports (SenderEnd (Go 0) (Some ''connection refused''))
            (projr (run ok_ports refused_then_retried (small 2 10)))))))))
     = [[Span 1, Span 2, Span 3, Span 4]]"
proof -
  let ?s = "projr (run ok_ports refused_then_retried (small 2 10))"
  let ?e = "SenderEnd (Go 0) (Some ''connection refused'')"
  let ?s1 = "projr (step ok_ports ?e ?s)"
  let ?s2 = "projr (run ok_ports [Arrival (Span 4) 40] ?s1)"
  let ?s3 = "projr (step ok_ports (SenderBegin (Go 1)) ?s2)"
  have r: "run ok_ports refused_then_retried (small 2 10) = Inr ?s"
    by (simp add: refused_then_retried_def fixture_defs model_defs)
  have i: "idle (small 2 10)"
    by (simp add: idle_def fixture_defs model_defs)
  have n: "no_overflow ok_ports refused_then_retried (small 2 10)"
    by (simp add: refused_then_retried_def fixture_defs model_defs)
  have pc: "pc_of ?s (Go 0) = Some (InSend [Span 1, Span 2])"
    by (simp add: refused_then_retried_def fixture_defs model_defs)
  have sd: "send ok_ports (coll ?s) [Span 1, Span 2] (Some ''connection refused'')
              = Inr (Some ''connection refused'')"
    by (simp add: refused_then_retried_def fixture_defs model_defs)
  have st1: "step ok_ports ?e ?s = Inr ?s1"
    by (simp add: refused_then_retried_def fixture_defs model_defs)
  have r2: "run ok_ports [Arrival (Span 4) 40] ?s1 = Inr ?s2"
    by (simp add: refused_then_retried_def fixture_defs model_defs)
  have le: "list_all loop_event [Arrival (Span 4) 40]"
    by simp
  have n2: "no_overflow ok_ports [Arrival (Span 4) 40] ?s1"
    by (simp add: refused_then_retried_def fixture_defs model_defs)
  have st3: "step ok_ports (SenderBegin (Go 1)) ?s2 = Inr ?s3"
    by (simp add: refused_then_retried_def fixture_defs model_defs)
  have b: "batch (coll ?s) = [Span 1, Span 2, Span 3]" and l: "logger (coll ?s) = []"
    by (simp_all add: refused_then_retried_def fixture_defs model_defs)
  note w = failed_flush_keeps_buffer[of ok_ports]
  have f: "pc_of ?s (Go 0) = Some (InSend [Span 1, Span 2])
      \<and> send ok_ports (coll ?s) [Span 1, Span 2] (Some ''connection refused'')
          = Inr (Some ''connection refused'')"
    using pc sd by (intro conjI)
  note k = w[THEN conjunct1, rule_format, OF f, THEN conjunct1]
  have c1: "batch (coll ?s1) = [Span 1, Span 2, Span 3]"
    and c2: "logger (coll ?s1) = [LogErr ''connection refused'']"
    unfolding k using b l by simp_all
  have g: "run ok_ports refused_then_retried (small 2 10) = Inr ?s \<and> idle (small 2 10)
      \<and> no_overflow ok_ports refused_then_retried (small 2 10)
      \<and> pc_of ?s (Go 0) = Some (InSend [Span 1, Span 2])
      \<and> send ok_ports (coll ?s) [Span 1, Span 2] (Some ''connection refused'')
          = Inr (Some ''connection refused'')
      \<and> step ok_ports ?e ?s = Inr ?s1
      \<and> run ok_ports [Arrival (Span 4) 40] ?s1 = Inr ?s2
      \<and> list_all loop_event [Arrival (Span 4) 40]
      \<and> no_overflow ok_ports [Arrival (Span 4) 40] ?s1
      \<and> step ok_ports (SenderBegin (Go 1)) ?s2 = Inr ?s3"
    using r i n pc sd st1 r2 le n2 st3 by (intro conjI)
  have "in_flight ?s3 = [batch (coll ?s) @ appended [Arrival (Span 4) 40]]"
    by (rule w[THEN conjunct2, THEN conjunct2, rule_format, OF g, THEN conjunct2])
  moreover have "batch (coll ?s) @ appended [Arrival (Span 4) 40] = [Span 1, Span 2, Span 3, Span 4]"
    unfolding b by (simp add: appended_def)
  ultimately have c3: "in_flight ?s3 = [[Span 1, Span 2, Span 3, Span 4]]"
    by (simp only:)
  from c1 c2 c3 show ?thesis
    by (intro conjI)
qed

subsection \<open>C4: append and eviction\<close>

text \<open>
  C4 speaks of every append. With a negative \<open>maxBacklog\<close>, which \<open>HTTPMaxBacklog\<close>
  accepts, the first append asks for more elements than the buffer holds to be disposed,
  and the slice expression panics.
\<close>

theorem append_panics_on_negative_backlog:
  "append_span (coll (small 3 (- 1))) (Span 0) = Inl (Panicked ''slice bounds out of range'')"
  by (simp add: fixture_defs model_defs)

text \<open>
  C4 as amended, for a collector whose \<open>maxBacklog\<close> is not negative. Every append adds
  the span at the tail; when the new length exceeds \<open>maxBacklog\<close> it drops the excess
  from the head and tells the sink how many spans it dropped; the survivors keep their
  order, and the length returned is at most \<open>maxBacklog\<close>. No step of the program takes
  the buffer beyond \<open>maxBacklog\<close>. A run that starts with an empty buffer, delivers no
  flush and appends \<open>maxBacklog + k\<close> spans ends with exactly the last \<open>maxBacklog\<close>
  of them buffered, and the sink has been told of \<open>k\<close> more disposals.
\<close>

theorem append_evicts_oldest:
  assumes "0 \<le> maxBacklog c"
  shows "append_span c sp =
      Inr (c\<lparr>logger := logger c @
                 (if maxBacklog c < int (length (batch c)) + 1
                  then [Disposing (int (length (batch c)) + 1 - maxBacklog c)] else []),
              batch := drop (length (batch c) + 1 - nat (maxBacklog c)) (batch c @ [sp])\<rparr>,
           int (length (drop (length (batch c) + 1 - nat (maxBacklog c)) (batch c @ [sp]))))
    \<and> int (length (drop (length (batch c) + 1 - nat (maxBacklog c)) (batch c @ [sp]))) \<le> maxBacklog c
    \<and> (\<forall>P e s s'. step P e s = Inr s' \<and> coll s = c \<and> int (length (batch c)) \<le> maxBacklog c
          \<longrightarrow> int (length (batch (coll s'))) \<le> maxBacklog (coll s'))
    \<and> (\<forall>P evs s s' k. run P evs s = Inr s' \<and> delivered P evs s = [] \<and> coll s = c \<and> batch c = []
            \<and> length (appended evs) = nat (maxBacklog c) + k
          \<longrightarrow> batch (coll s') = drop k (appended evs)
              \<and> int (length (batch (coll s'))) = maxBacklog c
              \<and> disposed (logger (coll s')) = disposed (logger c) + int k)"
proof -
  have one: "int (length (drop (length (batch c) + 1 - nat (maxBacklog c)) (batch c @ [sp]))) \<le> maxBacklog c"
    using assms by auto
  have inv: "int (length (batch (coll s'))) \<le> maxBacklog (coll s')"
    if "step P e s = Inr s'" and "coll s = c" and "int (length (batch c)) \<le> maxBacklog c"
    for P e s s'
  proof -
    from that assms have "0 \<le> maxBacklog (coll s)" "length (batch (coll s)) \<le> nat (maxBacklog (coll s))"
      by auto
    from step_backlog_bound[OF that(1) this] step_cfg(1)[OF that(1)] that(2) assms show ?thesis
      by auto
  qed
  have many: "batch (coll s') = drop k (appended evs)
              \<and> int (length (batch (coll s'))) = maxBacklog c
              \<and> disposed (logger (coll s')) = disposed (logger c) + int k"
    if r: "run P evs s = Inr s'" and nd: "delivered P evs s = []" and c: "coll s = c"
      and e: "batch c = []" and len: "length (appended evs) = nat (maxBacklog c) + k"
    for P evs s s' k
  proof -
    from assms c e have "0 \<le> maxBacklog (coll s)" "length (batch (coll s)) \<le> nat (maxBacklog (coll s))"
      by auto
    from run_without_delivery[OF r nd this] c e len
    have "batch (coll s') = drop k (appended evs)"
      and "disposed (logger (coll s')) = disposed (logger c) + int k"
      by simp_all
    moreover from this(1) len assms have "int (length (batch (coll s'))) = maxBacklog c"
      by simp
    ultimately show ?thesis
      by simp
  qed
  have B: "\<forall>P e s s'. step P e s = Inr s' \<and> coll s = c \<and> int (length (batch c)) \<le> maxBacklog c
          \<longrightarrow> int (length (batch (coll s'))) \<le> maxBacklog (coll s')"
    by (intro allI impI, elim conjE, rule inv)
  have C: "\<forall>P evs s s' k. run P evs s = Inr s' \<and> delivered P evs s = [] \<and> coll s = c \<and> batch c = []
            \<and> length (appended evs) = nat (maxBacklog c) + k
          \<longrightarrow> batch (coll s') = drop k (appended evs)
              \<and> int (length (batch (coll s'))) = maxBacklog c
              \<and> disposed (logger (coll s')) = disposed (logger c) + int k"
    by (intro allI impI, elim conjE, rule many)
  from append_span_ok[OF assms, of sp] one B C show ?thesis
    by (intro conjI)
qed

text \<open>
  With a backlog of three: the fourth append returns 3, keeps spans 2, 3, 4 and reports
  one disposal; after five appends spans 3, 4, 5 are buffered and two disposals reported.
\<close>

theorem append_evicts_oldest_witness:
  "append_span (coll (projr (run ok_ports (take 4 overfilled) (small 9 3)))) (Span 4)
     = Inr ((coll (projr (run ok_ports (take 4 overfilled) (small 9 3))))
              \<lparr>logger := [Disposing 1], batch := [Span 2, Span 3, Span 4]\<rparr>, 3)
   \<and> batch (coll (projr (run ok_ports overfilled (small 9 3)))) = [Span 3, Span 4, Span 5]
   \<and> disposed (logger (coll (projr (run ok_ports overfilled (small 9 3))))) = 2"
proof -
  let ?c = "coll (projr (run ok_ports (take 4 overfilled) (small 9 3)))"
  let ?s' = "projr (run ok_ports overfilled (small 9 3))"
  have m: "0 \<le> maxBacklog ?c" and m0: "0 \<le> maxBacklog (coll (small 9 3))"
    by (simp_all add: overfilled_def fixture_defs model_defs)
  have r: "run ok_ports overfilled (small 9 3) = Inr ?s'"
    by (simp add: overfilled_def fixture_defs model_defs)
  have nd: "delivered ok_ports overfilled (small 9 3) = []"
    by (simp add: overfilled_def fixture_defs model_defs)
  have e: "batch (coll (small 9 3)) = []" and lg: "logger (coll (small 9 3)) = []"
    by (simp_all add: fixture_defs model_defs)
  have len: "length (appended overfilled) = nat (maxBacklog (coll (small 9 3))) + 2"
    by (simp add: overfilled_def fixture_defs model_defs)
  have a: "appended overfilled = [Span 1, Span 2, Span 3, Span 4, Span 5]"
    by (simp add: overfilled_def appended_def)
  have "batch (coll ?s') = drop 2 (appended overfilled)
      \<and> int (length (batch (coll ?s'))) = maxBacklog (coll (small 9 3))
      \<and> disposed (logger (coll ?s')) = disposed (logger (coll (small 9 3))) + int 2"
    using append_evicts_oldest[OF m0, of "Span 0"] r nd e len by blast
  with a lg have c2: "batch (coll ?s') = [Span 3, Span 4, Span 5]"
    and c3: "disposed (logger (coll ?s')) = 2"
    by simp_all
  have b: "batch ?c = [Span 1, Span 2, Span 3]" and l: "logger ?c = []" and mb: "maxBacklog ?c = 3"
    by (simp_all add: overfilled_def fixture_defs model_defs)
  have c1: "append_span ?c (Span 4) = Inr (?c\<lparr>logger := [Disposing 1], batch := [Span 2, Span 3, Span 4]\<rparr>, 3)"
    using append_evicts_oldest[OF m, of "Span 4"] unfolding b l mb by simp
  from c1 c2 c3 show ?thesis
    by (intro conjI)
qed

subsection \<open>C5: the count trigger\<close>

text \<open>
  C5: when the loop has processed the arrival of a span, it has launched exactly one
  \<open>sendNow\<close> goroutine and moved the deadline to \<open>now + batchInterval\<close> if the size
  returned by \<open>append\<close> has reached \<open>batchSize\<close>, and has launched nothing and left the
  deadline alone otherwise. The goroutine launched has not started (it is yet to lock
  \<open>sendMutex\<close>) and the loop is back in its \<open>select\<close>: the sends in flight and the
  mutex are what they were. In particular, the collector built with \<open>HTTPBatchSize(3)\<close>
  launches exactly one send on the third of three spans, whose snapshot is these three
  spans, and none on two spans.
\<close>

theorem count_trigger:
  assumes "step P (Arrival sp now) s = Inr s'"
  shows "spawned s' = (if batchSize (coll s) \<le> currentBatchSize (coll s')
                        then spawned s @ [AtLock] else spawned s)
    \<and> nextSend (coll s') = (if batchSize (coll s) \<le> currentBatchSize (coll s')
                        then now + batchInterval (coll s) else nextSend (coll s))
    \<and> loop_at s' = Running \<and> in_flight s' = in_flight s \<and> sendMutex (coll s') = sendMutex (coll s)
    \<and> map_sum id spawned
         (run P [LoopStart, Arrival a t1, Arrival b t2, Arrival c t3]
            (fst (NewHTTPCollector u [HTTPBatchSize 3] t0))) = Inr [AtLock]
    \<and> map_sum id in_flight
         (run P [LoopStart, Arrival a t1, Arrival b t2, Arrival c t3, SenderBegin (Go 0)]
            (fst (NewHTTPCollector u [HTTPBatchSize 3] t0))) = Inr [[a, b, c]]
    \<and> map_sum id spawned
         (run P [LoopStart, Arrival a t1, Arrival b t2]
            (fst (NewHTTPCollector u [HTTPBatchSize 3] t0))) = Inr []"
proof -
  from assms obtain c' n where a: "append_span (coll s) sp = Inr (c', n)" and r: "loop_at s = Running"
    and s': "s' = (if batchSize c' \<le> n
              then s\<lparr>coll := scheduleNextSend c' now, spawned := spawned s @ [AtLock]\<rparr>
              else s\<lparr>coll := c'\<rparr>)"
    by (auto simp: step_Arrival_iff simp del: step.simps)
  from a have n: "n = int (length (batch c'))"
    by (auto simp: append_span_def Let_def split: if_splits)
  have general: "spawned s' = (if batchSize (coll s) \<le> currentBatchSize (coll s')
                        then spawned s @ [AtLock] else spawned s)
    \<and> nextSend (coll s') = (if batchSize (coll s) \<le> currentBatchSize (coll s')
                        then now + batchInterval (coll s) else nextSend (coll s))
    \<and> loop_at s' = Running \<and> in_flight s' = in_flight s \<and> sendMutex (coll s') = sendMutex (coll s)"
    using s' r n append_span_frame[OF a]
    by (auto simp: currentBatchSize_def scheduleNextSend_def in_flight_def)
  have three: "map_sum id spawned
         (run P [LoopStart, Arrival a t1, Arrival b t2, Arrival c t3]
            (fst (NewHTTPCollector u [HTTPBatchSize 3] t0))) = Inr [AtLock]"
    by (simp add: model_defs)
  have snapshot: "map_sum id in_flight
         (run P [LoopStart, Arrival a t1, Arrival b t2, Arrival c t3, SenderBegin (Go 0)]
            (fst (NewHTTPCollector u [HTTPBatchSize 3] t0))) = Inr [[a, b, c]]"
    by (simp add: model_defs)
  have two: "map_sum id spawned
         (run P [LoopStart, Arrival a t1, Arrival b t2]
            (fst (NewHTTPCollector u [HTTPBatchSize 3] t0))) = Inr []"
    by (simp add: model_defs)
  from general three snapshot two show ?thesis
    by (intro conjI) simp_all
qed

text \<open>The third span launches a send and moves the deadline; the second does not.\<close>

theorem count_trigger_witness:
  "spawned (projr (step ok_ports (Arrival (Span 3) 30)
       (projr (run ok_ports [LoopStart, Arrival (Span 1) 10, Arrival (Span 2) 20]
          (fst (NewHTTPCollector ''http://zipkin'' [HTTPBatchSize 3] 0)))))) = [AtLock]
   \<and> nextSend (coll (projr (step ok_ports (Arrival (Span 3) 30)
       (projr (run ok_ports [LoopStart, Arrival (Span 1) 10, Arrival (Span 2) 20]
          (fst (NewHTTPCollector ''http://zipkin'' [HTTPBatchSize 3] 0))))))) = 1000000030
   \<and> spawned (projr (step ok_ports (Arrival (Span 2) 20)
       (projr (run ok_ports [LoopStart, Arrival (Span 1) 10]
          (fst (NewHTTPCollector ''http://zipkin'' [HTTPBatchSize 3] 0)))))) = []"
proof -
  let ?c = "fst (NewHTTPCollector ''http://zipkin'' [HTTPBatchSize 3] 0)"
  let ?s2 = "projr (run ok_ports [LoopStart, Arrival (Span 1) 10, Arrival (Span 2) 20] ?c)"
  let ?s3 = "projr (step ok_ports (Arrival (Span 3) 30) ?s2)"
  let ?s1 = "projr (run ok_ports [LoopStart, Arrival (Span 1) 10] ?c)"
  let ?s2' = "projr (step ok_ports (Arrival (Span 2) 20) ?s1)"
  have st3: "step ok_ports (Arrival (Span 3) 30) ?s2 = Inr ?s3"
    by (simp add: fixture_defs model_defs)
  have st2: "step ok_ports (Arrival (Span 2) 20) ?s1 = Inr ?s2'"
    by (simp add: fixture_defs model_defs)
  have v3: "batchSize (coll ?s2) \<le> currentBatchSize (coll ?s3)" "spawned ?s2 = []"
    "batchInterval (coll ?s2) = 1000000000"
    by (simp_all add: currentBatchSize_def fixture_defs model_defs)
  have v2: "\<not> batchSize (coll ?s1) \<le> currentBatchSize (coll ?s2')" "spawned ?s1 = []"
    by (simp_all add: currentBatchSize_def fixture_defs model_defs)
  note w3 = count_trigger[OF st3, where a = "Span 1" and b = "Span 2" and c = "Span 3"
      and ?t1.0 = 10 and ?t2.0 = 20 and ?t3.0 = 30 and u = "''http://zipkin''" and ?t0.0 = 0]
  note w2 = count_trigger[OF st2, where a = "Span 1" and b = "Span 2" and c = "Span 3"
      and ?t1.0 = 10 and ?t2.0 = 20 and ?t3.0 = 30 and u = "''http://zipkin''" and ?t0.0 = 0]
  have "spawned ?s3 = (if batchSize (coll ?s2) \<le> currentBatchSize (coll ?s3)
                        then spawned ?s2 @ [AtLock] else spawned ?s2)"
    using w3 by (elim conjE)
  with v3 have c1: "spawned ?s3 = [AtLock]"
    by (simp only: if_True append_Nil)
  have "nextSend (coll ?s3) = (if batchSize (coll ?s2) \<le> currentBatchSize (coll ?s3)
                        then 30 + batchInterval (coll ?s2) else nextSend (coll ?s2))"
    using w3 by (elim conjE)
  with v3 have c2: "nextSend (coll ?s3) = 1000000030"
    by (simp only: if_True)
  have "spawned ?s2' = (if batchSize (coll ?s1) \<le> currentBatchSize (coll ?s2')
                        then spawned ?s1 @ [AtLock] else spawned ?s1)"
    using w2 by (elim conjE)
  with v2 have c3: "spawned ?s2' = []"
    by (simp only: if_False)
  from c1 c2 c3 show ?thesis
    by (intro conjI)
qed

subsection \<open>C6: both triggers move the deadline\<close>

text \<open>
  C6: an arrival that reaches \<open>batchSize\<close> sets \<open>nextSend\<close> to its clock reading plus
  \<open>batchInterval\<close> and launches one send; a tick whose clock reading is after
  \<open>nextSend\<close> does the same with the reading of its \<open>scheduleNextSend\<close>, and a tick
  that is not after \<open>nextSend\<close> changes nothing. Hence, when the clock does not run
  backwards, a tick that fires after a count trigger at \<open>t0\<close> reads a time later than
  \<open>t0 + batchInterval\<close>. The ticker the loop starts has the period
  \<open>batchInterval / 10\<close>, a tenth of the interval in whole nanoseconds.
\<close>

theorem triggers_reschedule:
  "(\<forall>sp now s s'.
      step P (Arrival sp now) s = Inr s' \<and> batchSize (coll s) \<le> currentBatchSize (coll s')
      \<longrightarrow> nextSend (coll s') = now + batchInterval (coll s) \<and> spawned s' = spawned s @ [AtLock])
   \<and> (\<forall>now now' s s'.
        step P (Tick now now') s = Inr s'
        \<longrightarrow> (if nextSend (coll s) < now
             then nextSend (coll s') = now' + batchInterval (coll s)
                  \<and> spawned s' = spawned s @ [AtLock]
             else s' = s))
   \<and> (\<forall>sp t0 s s1 evs s2 now now' s3.
        step P (Arrival sp t0) s = Inr s1 \<and> batchSize (coll s) \<le> currentBatchSize (coll s1)
        \<and> run P evs s1 = Inr s2 \<and> (\<forall>r \<in> set (concat (map readings evs)). t0 \<le> r)
        \<and> step P (Tick now now') s2 = Inr s3 \<and> spawned s3 \<noteq> spawned s2
        \<longrightarrow> t0 + batchInterval (coll s) < now)
   \<and> (\<forall>s s'. step P LoopStart s = Inr s' \<longrightarrow>
          tickc s' = Some (batchInterval (coll s) sdiv 10)
          \<and> 10 * (batchInterval (coll s) sdiv 10) \<le> batchInterval (coll s)
          \<and> batchInterval (coll s) < 10 * (batchInterval (coll s) sdiv 10) + 10)"
proof -
  have tick: "if nextSend (coll s) < now
             then nextSend (coll s') = now' + batchInterval (coll s)
                  \<and> spawned s' = spawned s @ [AtLock]
             else s' = s"
    if "step P (Tick now now') s = Inr s'" for now now' s s'
    using that by (auto simp: step_Tick_iff scheduleNextSend_def simp del: step.simps)
  have apart: "t0 + batchInterval (coll s) < now"
    if count: "step P (Arrival sp t0) s = Inr s1" "batchSize (coll s) \<le> currentBatchSize (coll s1)"
      and between: "run P evs s1 = Inr s2" "\<forall>r \<in> set (concat (map readings evs)). t0 \<le> r"
      and fired: "step P (Tick now now') s2 = Inr s3" "spawned s3 \<noteq> spawned s2"
    for sp t0 s s1 evs s2 now now' s3
  proof -
    note first = step_Arrival_fired[OF count]
    have i1: "batchInterval (coll s1) = batchInterval (coll s)"
      by (rule step_cfg(3)[OF count(1)])
    have "\<forall>r \<in> set (concat (map readings evs)).
            t0 + batchInterval (coll s) \<le> r + batchInterval (coll s1)"
      using between(2) i1 by simp
    with run_nextSend_lower[OF between(1), of "t0 + batchInterval (coll s)"] first
    have low: "t0 + batchInterval (coll s) \<le> nextSend (coll s2)"
      by simp
    from tick[OF fired(1)] fired(2) have "nextSend (coll s2) < now"
      by (auto split: if_splits)
    with low show ?thesis
      by simp
  qed
  have ticker: "tickc s' = Some (batchInterval (coll s) sdiv 10)
          \<and> 10 * (batchInterval (coll s) sdiv 10) \<le> batchInterval (coll s)
          \<and> batchInterval (coll s) < 10 * (batchInterval (coll s) sdiv 10) + 10"
    if "step P LoopStart s = Inr s'" for s s'
  proof -
    from that have "0 < batchInterval (coll s) sdiv 10"
      and "s' = s\<lparr>loop_at := Running, tickc := Some (batchInterval (coll s) sdiv 10)\<rparr>"
      by (simp_all add: step_LoopStart_iff del: step.simps)
    with sdiv_ten[of "batchInterval (coll s)"] show ?thesis
      by simp
  qed
  have A: "\<forall>sp now s s'.
      step P (Arrival sp now) s = Inr s' \<and> batchSize (coll s) \<le> currentBatchSize (coll s')
      \<longrightarrow> nextSend (coll s') = now + batchInterval (coll s) \<and> spawned s' = spawned s @ [AtLock]"
    by (intro allI impI, elim conjE, rule step_Arrival_fired)
  have B: "\<forall>now now' s s'.
        step P (Tick now now') s = Inr s'
        \<longrightarrow> (if nextSend (coll s) < now
             then nextSend (coll s') = now' + batchInterval (coll s)
                  \<and> spawned s' = spawned s @ [AtLock]
             else s' = s)"
    by (intro allI impI, rule tick)
  have C: "\<forall>sp t0 s s1 evs s2 now now' s3.
        step P (Arrival sp t0) s = Inr s1 \<and> batchSize (coll s) \<le> currentBatchSize (coll s1)
        \<and> run P evs s1 = Inr s2 \<and> (\<forall>r \<in> set (concat (map readings evs)). t0 \<le> r)
        \<and> step P (Tick now now') s2 = Inr s3 \<and> spawned s3 \<noteq> spawned s2
        \<longrightarrow> t0 + batchInterval (coll s) < now"
    by (intro allI impI, elim conjE, rule apart)
  have D: "\<forall>s s'. step P LoopStart s = Inr s' \<longrightarrow>
          tickc s' = Some (batchInterval (coll s) sdiv 10)
          \<and> 10 * (batchInterval (coll s) sdiv 10) \<le> batchInterval (coll s)
          \<and> batchInterval (coll s) < 10 * (batchInterval (coll s) sdiv 10) + 10"
    by (intro allI impI, rule ticker)
  from A B C D show ?thesis
    by (intro conjI)
qed

text \<open>
  With an interval of one second: the count trigger at 20 ns sets the deadline to
  1000000020; a tick reading exactly that time changes nothing; a tick reading
  1000000021 fires, later than \<open>20 + batchInterval\<close>, and moves the deadline; the ticker
  has a period of 100 ms.
\<close>

theorem triggers_reschedule_witness:
  "nextSend (coll (projr (run ok_ports overlapped (small 2 10)))) = 1000000020
   \<and> projr (step ok_ports (Tick 1000000020 1000000021)
        (projr (run ok_ports [Tick 500000000 500000001]
           (projr (run ok_ports overlapped (small 2 10))))))
     = projr (run ok_ports [Tick 500000000 500000001]
           (projr (run ok_ports overlapped (small 2 10))))
   \<and> nextSend (coll (projr (step ok_ports (Tick 1000000021 1000000022)
        (projr (run ok_ports [Tick 500000000 500000001]
           (projr (run ok_ports overlapped (small 2 10)))))))) = 2000000022
   \<and> 20 + batchInterval (coll (projr (run ok_ports (take 2 overlapped) (small 2 10)))) < 1000000021
   \<and> tickc (projr (step ok_ports LoopStart (small 2 10))) = Some 100000000"
proof -
  let ?s = "projr (run ok_ports (take 2 overlapped) (small 2 10))"
  let ?s1 = "projr (run ok_ports overlapped (small 2 10))"
  let ?evs = "[Tick 500000000 500000001]"
  let ?s2 = "projr (run ok_ports ?evs ?s1)"
  let ?s3 = "projr (step ok_ports (Tick 1000000020 1000000021) ?s2)"
  let ?s3' = "projr (step ok_ports (Tick 1000000021 1000000022) ?s2)"
  let ?l = "projr (step ok_ports LoopStart (small 2 10))"
  have c: "step ok_ports (Arrival (Span 2) 20) ?s = Inr ?s1"
    by (simp add: overlapped_def fixture_defs model_defs)
  have f: "batchSize (coll ?s) \<le> currentBatchSize (coll ?s1)"
    by (simp add: currentBatchSize_def overlapped_def fixture_defs model_defs)
  have r: "run ok_ports ?evs ?s1 = Inr ?s2"
    by (simp add: overlapped_def fixture_defs model_defs)
  have cl: "\<forall>r \<in> set (concat (map readings ?evs)). 20 \<le> r"
    by simp
  have t: "step ok_ports (Tick 1000000020 1000000021) ?s2 = Inr ?s3"
    by (simp add: overlapped_def fixture_defs model_defs)
  have t': "step ok_ports (Tick 1000000021 1000000022) ?s2 = Inr ?s3'"
    by (simp add: overlapped_def fixture_defs model_defs)
  have fired: "spawned ?s3' \<noteq> spawned ?s2"
    by (simp add: overlapped_def fixture_defs model_defs)
  have ls: "step ok_ports LoopStart (small 2 10) = Inr ?l"
    by (simp add: fixture_defs model_defs)
  have v: "batchInterval (coll ?s) = 1000000000" "nextSend (coll ?s2) = 1000000020"
    "batchInterval (coll ?s2) = 1000000000"
    "batchInterval (coll (small 2 10)) sdiv 10 = 100000000"
    by (simp_all add: overlapped_def fixture_defs model_defs)
  note w = triggers_reschedule[of ok_ports]
  have "nextSend (coll ?s1) = 20 + batchInterval (coll ?s)"
    using w c f by blast
  with v have c1: "nextSend (coll ?s1) = 1000000020"
    by simp
  have "if nextSend (coll ?s2) < 1000000020
        then nextSend (coll ?s3) = 1000000021 + batchInterval (coll ?s2)
             \<and> spawned ?s3 = spawned ?s2 @ [AtLock]
        else ?s3 = ?s2"
    using w t by blast
  with v have c2: "?s3 = ?s2"
    by (simp del: step.simps run.simps)
  have "if nextSend (coll ?s2) < 1000000021
        then nextSend (coll ?s3') = 1000000022 + batchInterval (coll ?s2)
             \<and> spawned ?s3' = spawned ?s2 @ [AtLock]
        else ?s3' = ?s2"
    using w t' by blast
  with v have c3: "nextSend (coll ?s3') = 2000000022"
    by (simp del: step.simps run.simps)
  have c4: "20 + batchInterval (coll ?s) < 1000000021"
    using w c f r cl t' fired by blast
  have "tickc ?l = Some (batchInterval (coll (small 2 10)) sdiv 10)"
    using w ls by blast
  with v have c5: "tickc ?l = Some 100000000"
    by (simp del: step.simps)
  from c1 c2 c3 c4 c5 show ?thesis
    by (intro conjI)
qed

subsection \<open>C7: the drain on Close\<close>

text \<open>
  C7 ends with: appending fewer spans than \<open>batchSize\<close> and calling \<open>Close\<close> gets all
  of them delivered or attempted before \<open>Close\<close> returns. With \<open>batchSize\<close> 3 and
  \<open>maxBacklog\<close> 1, two spans are appended, the second evicts the first, the final flush
  sends the second alone, and \<open>Close\<close> returns: nothing ever tried to send span 1.
\<close>

theorem evicted_span_never_attempted:
  "attempted ok_ports (closed_after_two None) (small 3 1) = [[Span 2]]
   \<and> appended (closed_after_two None) = [Span 1, Span 2]
   \<and> map_sum id fst (Close_return (projr (run ok_ports (closed_after_two None) (small 3 1))))
       = Inr None"
  by (simp add: closed_after_two_def fixture_defs model_defs)

text \<open>
  C7 as amended. On the quit signal the loop leaves its \<open>select\<close> for good and calls
  \<open>sendNow\<close>. That call takes the whole buffer as its snapshot; only when it has
  returned (at once for an empty buffer, else when \<open>send\<close> has returned) does the loop
  send on \<open>shutdown\<close> and stop. In every run from a fresh collector after which
  \<open>Close\<close> can return, the loop has made exactly one such call and has stopped, and
  every span still buffered has been through a \<open>send\<close> that returned. If moreover no
  arrival overflowed the backlog, every span appended in the run has been through a
  \<open>send\<close> that returned before \<open>Close\<close> returns. No arrival overflows the backlog when
  \<open>N\<close> spans are appended to the empty buffer of a fresh collector and \<open>N\<close> is at most
  \<open>maxBacklog\<close>: then all \<open>N\<close> spans have been attempted before \<open>Close\<close> returns, for
  \<open>N\<close> below \<open>batchSize\<close> as for any other \<open>N\<close>.
\<close>

theorem close_drains_buffer:
  "(\<forall>s s'. step P Quit s = Inr s'
      \<longrightarrow> loop_at s' = Draining AtLock \<and> shutdown (coll s') = shutdown (coll s))
   \<and> (\<forall>s s'. step P (SenderBegin LoopT) s = Inr s'
      \<longrightarrow> loop_at s' = (if batch (coll s) = [] then Stopped
                        else Draining (InSend (batch (coll s))))
          \<and> shutdown (coll s') = shutdown (coll s) @ (if batch (coll s) = [] then [None] else []))
   \<and> (\<forall>s doErr s'. step P (SenderEnd LoopT doErr) s = Inr s'
      \<longrightarrow> loop_at s' = Stopped \<and> shutdown (coll s') = shutdown (coll s) @ [None])
   \<and> (\<forall>evs s s' r s''.
        run P evs s = Inr s' \<and> idle s \<and> shutdown (coll s) = [] \<and> \<not> begun s
        \<and> Close_return s' = Inr (r, s'')
        \<longrightarrow> count_list evs (SenderBegin LoopT) = 1 \<and> loop_at s' = Stopped
            \<and> set (batch (coll s')) \<subseteq> set (concat (attempted P evs s)))
   \<and> (\<forall>evs s s' r s''.
        run P evs s = Inr s' \<and> idle s \<and> shutdown (coll s) = [] \<and> \<not> begun s
        \<and> no_overflow P evs s \<and> Close_return s' = Inr (r, s'')
        \<longrightarrow> set (batch (coll s)) \<union> set (appended evs) \<subseteq> set (concat (attempted P evs s)))
   \<and> (\<forall>evs s s' r s''.
        run P evs s = Inr s' \<and> idle s \<and> shutdown (coll s) = [] \<and> \<not> begun s
        \<and> batch (coll s) = [] \<and> int (length (appended evs)) \<le> maxBacklog (coll s)
        \<and> Close_return s' = Inr (r, s'')
        \<longrightarrow> set (appended evs) \<subseteq> set (concat (attempted P evs s)))"
proof -
  have quit: "loop_at s' = Draining AtLock \<and> shutdown (coll s') = shutdown (coll s)"
    if "step P Quit s = Inr s'" for s s'
    using that by (auto simp: step_Quit_iff simp del: step.simps)
  have beg: "loop_at s' = (if batch (coll s) = [] then Stopped else Draining (InSend (batch (coll s))))
          \<and> shutdown (coll s') = shutdown (coll s) @ (if batch (coll s) = [] then [None] else [])"
    if "step P (SenderBegin LoopT) s = Inr s'" for s s'
    using that by (auto simp: step_SenderBegin_iff loop_err_def simp del: step.simps)
  have fin: "loop_at s' = Stopped \<and> shutdown (coll s') = shutdown (coll s) @ [None]"
    if "step P (SenderEnd LoopT doErr) s = Inr s'" for s doErr s'
  proof -
    from that obtain sb c' where d: "sendNow_deliver P (coll s) sb doErr = Inr c'"
      and s': "s' = return_from LoopT (s\<lparr>coll := c'\<lparr>sendMutex := False\<rparr>\<rparr>)"
      by (auto simp add: step_SenderEnd_iff simp del: step.simps)
    from s' sendNow_deliver_frame(6)[OF d] show ?thesis
      by (simp add: loop_err_def)
  qed
  have drained: "count_list evs (SenderBegin LoopT) = 1 \<and> loop_at s' = Stopped
            \<and> set (batch (coll s')) \<subseteq> set (concat (attempted P evs s))"
    if r: "run P evs s = Inr s'" and i: "idle s" and e: "shutdown (coll s) = []"
      and nb: "\<not> begun s" and c: "Close_return s' = Inr (r, s'')"
    for evs s s' r s''
  proof -
    from nb have "drain_ok (loop_at s) (batch (coll s))"
      by (cases "(loop_at s, batch (coll s))" rule: drain_ok.cases) (auto simp: begun_def)
    with i e have di: "drain_inv s"
      by (simp add: drain_inv_def idle_mutex_inv)
    from c have sh: "shutdown (coll s') \<noteq> []"
      by (auto simp: Close_return_def split: list.splits)
    from run_drained[OF r di sh]
    have st: "loop_at s' = Stopped" and rest: "set (batch (coll s')) \<subseteq> set (concat (attempted P evs s))"
      by simp_all
    from st have "begun s'"
      by (simp add: begun_def)
    with run_begun[OF r] nb have "count_list evs (SenderBegin LoopT) = 1"
      by simp
    with st rest show ?thesis
      by simp
  qed
  have covered: "set (batch (coll s)) \<union> set (appended evs) \<subseteq> set (concat (attempted P evs s))"
    if r: "run P evs s = Inr s'" and i: "idle s" and e: "shutdown (coll s) = []"
      and nb: "\<not> begun s" and no: "no_overflow P evs s" and c: "Close_return s' = Inr (r, s'')"
    for evs s s' r s''
  proof -
    from drained[OF r i e nb c]
    have rest: "set (batch (coll s')) \<subseteq> set (concat (attempted P evs s))"
      by simp
    from run_conserves[OF r idle_send_inv[OF i] no]
    have "batch (coll s) @ appended evs = concat (delivered P evs s) @ batch (coll s')"
      by simp
    then have "set (batch (coll s)) \<union> set (appended evs)
        = set (concat (delivered P evs s)) \<union> set (batch (coll s'))"
      by (metis set_append)
    with rest delivered_attempted[of P evs s] show ?thesis
      by auto
  qed
  have A: "\<forall>s s'. step P Quit s = Inr s'
      \<longrightarrow> loop_at s' = Draining AtLock \<and> shutdown (coll s') = shutdown (coll s)"
    by (intro allI impI, rule quit)
  have B: "\<forall>s s'. step P (SenderBegin LoopT) s = Inr s'
      \<longrightarrow> loop_at s' = (if batch (coll s) = [] then Stopped
                        else Draining (InSend (batch (coll s))))
          \<and> shutdown (coll s') = shutdown (coll s) @ (if batch (coll s) = [] then [None] else [])"
    by (intro allI impI, rule beg)
  have C: "\<forall>s doErr s'. step P (SenderEnd LoopT doErr) s = Inr s'
      \<longrightarrow> loop_at s' = Stopped \<and> shutdown (coll s') = shutdown (coll s) @ [None]"
    by (intro allI impI, rule fin)
  have D: "\<forall>evs s s' r s''.
        run P evs s = Inr s' \<and> idle s \<and> shutdown (coll s) = [] \<and> \<not> begun s
        \<and> Close_return s' = Inr (r, s'')
        \<longrightarrow> count_list evs (SenderBegin LoopT) = 1 \<and> loop_at s' = Stopped
            \<and> set (batch (coll s')) \<subseteq> set (concat (attempted P evs s))"
    by (intro allI impI, elim conjE, rule drained)
  have E: "\<forall>evs s s' r s''.
        run P evs s = Inr s' \<and> idle s \<and> shutdown (coll s) = [] \<and> \<not> begun s
        \<and> no_overflow P evs s \<and> Close_return s' = Inr (r, s'')
        \<longrightarrow> set (batch (coll s)) \<union> set (appended evs) \<subseteq> set (concat (attempted P evs s))"
    by (intro allI impI, elim conjE, rule covered)
  have within: "set (appended evs) \<subseteq> set (concat (attempted P evs s))"
    if r: "run P evs s = Inr s'" and i: "idle s" and e: "shutdown (coll s) = []"
      and nb: "\<not> begun s" and b: "batch (coll s) = []"
      and n: "int (length (appended evs)) \<le> maxBacklog (coll s)"
      and c: "Close_return s' = Inr (r, s'')"
    for evs s s' r s''
  proof -
    from b n have "no_overflow P evs s"
      by (intro no_overflow_within_backlog) simp
    from covered[OF r i e nb this c] b show ?thesis
      by simp
  qed
  have F: "\<forall>evs s s' r s''.
        run P evs s = Inr s' \<and> idle s \<and> shutdown (coll s) = [] \<and> \<not> begun s
        \<and> batch (coll s) = [] \<and> int (length (appended evs)) \<le> maxBacklog (coll s)
        \<and> Close_return s' = Inr (r, s'')
        \<longrightarrow> set (appended evs) \<subseteq> set (concat (attempted P evs s))"
    by (intro allI impI, elim conjE, rule within)
  from A B C D E F show ?thesis
    by (intro conjI)
qed

text \<open>
  With \<open>batchSize\<close> 3 and \<open>maxBacklog\<close> 10: two spans are appended, \<open>Close\<close> is called,
  the final flush is refused; both spans were in that one attempt.
\<close>

theorem close_drains_buffer_witness:
  "set (appended (closed_after_two (Some ''connection refused'')))
      \<subseteq> set (concat (attempted ok_ports (closed_after_two (Some ''connection refused'')) (small 3 10)))
   \<and> attempted ok_ports (closed_after_two (Some ''connection refused'')) (small 3 10)
       = [[Span 1, Span 2]]
   \<and> count_list (closed_after_two (Some ''connection refused'')) (SenderBegin LoopT) = 1
   \<and> loop_at (projr (run ok_ports (closed_after_two (Some ''connection refused'')) (small 3 10)))
       = Stopped"
proof -
  let ?evs = "closed_after_two (Some ''connection refused'')"
  let ?s' = "projr (run ok_ports ?evs (small 3 10))"
  let ?r = "fst (projr (Close_return ?s'))"
  let ?s'' = "snd (projr (Close_return ?s'))"
  have r: "run ok_ports ?evs (small 3 10) = Inr ?s'"
    by (simp add: closed_after_two_def fixture_defs model_defs)
  have i: "idle (small 3 10)" and sh: "shutdown (coll (small 3 10)) = []"
    and nb: "\<not> begun (small 3 10)" and b: "batch (coll (small 3 10)) = []"
    by (simp_all add: idle_def begun_def fixture_defs model_defs)
  have n: "int (length (appended ?evs)) \<le> maxBacklog (coll (small 3 10))"
    by (simp add: closed_after_two_def fixture_defs model_defs)
  have c: "Close_return ?s' = Inr (?r, ?s'')"
    by (simp add: closed_after_two_def fixture_defs model_defs)
  have a: "attempted ok_ports ?evs (small 3 10) = [[Span 1, Span 2]]"
    by (simp add: closed_after_two_def fixture_defs model_defs)
  note w = close_drains_buffer[of ok_ports]
  have f: "run ok_ports ?evs (small 3 10) = Inr ?s' \<and> idle (small 3 10)
      \<and> shutdown (coll (small 3 10)) = [] \<and> \<not> begun (small 3 10)
      \<and> batch (coll (small 3 10)) = []
      \<and> int (length (appended ?evs)) \<le> maxBacklog (coll (small 3 10))
      \<and> Close_return ?s' = Inr (?r, ?s'')"
    using r i sh nb b n c by (intro conjI)
  have c1: "set (appended ?evs) \<subseteq> set (concat (attempted ok_ports ?evs (small 3 10)))"
    by (rule w[THEN conjunct2, THEN conjunct2, THEN conjunct2, THEN conjunct2, THEN conjunct2,
          rule_format, OF f])
  have d: "run ok_ports ?evs (small 3 10) = Inr ?s' \<and> idle (small 3 10)
      \<and> shutdown (coll (small 3 10)) = [] \<and> \<not> begun (small 3 10)
      \<and> Close_return ?s' = Inr (?r, ?s'')"
    using r i sh nb c by (intro conjI)
  note dd = w[THEN conjunct2, THEN conjunct2, THEN conjunct2, THEN conjunct1, rule_format, OF d]
  have c2: "count_list ?evs (SenderBegin LoopT) = 1" and c3: "loop_at ?s' = Stopped"
    using dd by simp_all
  from c1 a c2 c3 show ?thesis
    by (intro conjI)
qed

subsection \<open>C8: a serialiser that fails\<close>

text \<open>
  C8 says that a flush whose batch cannot be serialised fails with an error result, keeps
  the batch and does not abort the process. \<open>httpSerialize\<close> panics on every write
  error: in the run \<open>one_flush\<close> with a writer that cannot write a span, the send in
  flight ends in a panic, not in a state.
\<close>

theorem encode_failure_panics:
  "map_sum id in_flight (run encode_fail_ports (take 3 one_flush) (small 1 10)) = Inr [[Span 1]]
   \<and> run encode_fail_ports one_flush (small 1 10) = Inl (Panicked ''write error'')"
  by (simp add: one_flush_def fixture_defs model_defs)

text \<open>
  C8 as amended. When a write of the serialiser fails on the snapshot of a send in flight
  (the list header, one of the spans, or the list end), \<open>httpSerialize\<close> panics with the
  error, and so do \<open>send\<close> and the flush attempt: there is no error result, nothing is
  reported to the sink, and the process is aborted.
\<close>

theorem encode_failure_aborts:
  assumes "pc_of s t = Some (InSend sendBatch)"
    and "isl (WriteListBegin P (length sendBatch)) \<or> (\<exists>sp \<in> set sendBatch. isl (Write P sp))
           \<or> isl (WriteListEnd P)"
  shows "\<exists>msg. httpSerialize P sendBatch = Inl (Panicked msg)
           \<and> send P (coll s) sendBatch doErr = Inl (Panicked msg)
           \<and> step P (SenderEnd t doErr) s = Inl (Panicked msg)"
proof -
  have "\<exists>msg. httpSerialize P sendBatch = Inl (Panicked msg)"
  proof (cases "WriteListBegin P (length sendBatch)")
    case (Inl err)
    then show ?thesis
      by (simp add: httpSerialize_def)
  next
    case b: (Inr bytes)
    show ?thesis
    proof (cases "write_spans P sendBatch")
      case (Inl f)
      with write_spans_Inl[OF Inl] b show ?thesis
        by (auto simp: httpSerialize_def)
    next
      case w: (Inr body)
      with write_spans_fails[of _ sendBatch P] assms(2) b have "isl (WriteListEnd P)"
        by auto
      with b w show ?thesis
        by (cases "WriteListEnd P") (auto simp: httpSerialize_def)
    qed
  qed
  then obtain msg where "httpSerialize P sendBatch = Inl (Panicked msg)" ..
  with assms(1) show ?thesis
    by (auto simp: send_def sendNow_deliver_def)
qed

theorem encode_failure_aborts_witness:
  "httpSerialize encode_fail_ports [Span 1] = Inl (Panicked ''write error'')
   \<and> step encode_fail_ports (SenderEnd (Go 0) None)
       (projr (run encode_fail_ports (take 3 one_flush) (small 1 10)))
     = Inl (Panicked ''write error'')"
proof -
  let ?s = "projr (run encode_fail_ports (take 3 one_flush) (small 1 10))"
  have pc: "pc_of ?s (Go 0) = Some (InSend [Span 1])"
    by (simp add: one_flush_def fixture_defs model_defs)
  have f: "isl (WriteListBegin encode_fail_ports (length [Span 1]))
      \<or> (\<exists>sp \<in> set [Span 1]. isl (Write encode_fail_ports sp)) \<or> isl (WriteListEnd encode_fail_ports)"
    by (simp add: encode_fail_ports_def)
  from encode_failure_aborts[OF pc f, of None] obtain msg where
    m: "httpSerialize encode_fail_ports [Span 1] = Inl (Panicked msg)"
      "step encode_fail_ports (SenderEnd (Go 0) None) ?s = Inl (Panicked msg)"
    by blast
  have "httpSerialize encode_fail_ports [Span 1] = Inl (Panicked ''write error'')"
    by (simp add: httpSerialize_def encode_fail_ports_def)
  with m show ?thesis
    by simp
qed

subsection \<open>C9: one send at a time\<close>

text \<open>
  C9 ends with: the spans of a trigger that fires while a send is in flight are included
  in the next send. With a backlog of one span, in the run \<open>overlapped_evicted\<close>, span
  2 arrives and triggers a send while the send of span 1 is in flight; span 3 arrives
  and evicts span 2; the send in flight is refused, and the next send takes span 3
  alone.
\<close>

theorem second_trigger_span_evicted:
  "map_sum id spawned (run ok_ports (take 4 overlapped_evicted) (small 1 1))
     = Inr [InSend [Span 1], AtLock]
   \<and> map_sum id (\<lambda>s. batch (coll s)) (run ok_ports (take 4 overlapped_evicted) (small 1 1))
     = Inr [Span 2]
   \<and> map_sum id in_flight (run ok_ports overlapped_evicted (small 1 1)) = Inr [[Span 3]]"
  by (simp add: overlapped_evicted_def fixture_defs model_defs)

text \<open>
  C9 as amended. In every state reached from a collector with no send in flight, at most
  one \<open>sendNow\<close> is between locking and unlocking \<open>sendMutex\<close>, and while one is, no
  other can take a snapshot: it blocks. When a send has taken its snapshot, and arrivals,
  ticks and triggers follow without an overflow of the backlog, its snapshot stays the
  only one in flight. When it has ended, further arrivals, ticks and triggers may come
  before the next \<open>sendNow\<close> gets hold of \<open>sendMutex\<close> and then of the buffer; if none of
  them overflows the backlog either, the next send takes as its snapshot the spans that
  arrived while the first was in flight, preceded by the unsent ones if that send failed,
  and followed by the spans that arrived after it ended.
\<close>

theorem one_send_at_a_time:
  assumes "run P evs0 s0 = Inr s" and "idle s0"
  shows "length (in_flight s) \<le> 1
    \<and> (in_flight s \<noteq> [] \<longrightarrow> (\<forall>u. step P (SenderBegin u) s = Inl Blocked))
    \<and> (\<forall>t s1 evs s2 doErr s3 evs' s3' t' s4.
          step P (SenderBegin t) s = Inr s1 \<and> batch (coll s) \<noteq> []
          \<and> run P evs s1 = Inr s2 \<and> list_all loop_event evs \<and> no_overflow P evs s1
          \<and> step P (SenderEnd t doErr) s2 = Inr s3
          \<and> run P evs' s3 = Inr s3' \<and> list_all loop_event evs' \<and> no_overflow P evs' s3
          \<and> step P (SenderBegin t') s3' = Inr s4
          \<longrightarrow> in_flight s2 = [batch (coll s)]
              \<and> in_flight s3' = []
              \<and> concat (in_flight s4)
                  = (if flushed P (SenderEnd t doErr) s2 = []
                     then batch (coll s) @ appended evs @ appended evs'
                     else appended evs @ appended evs'))"
proof -
  note mi = run_mutex_inv[OF assms(1) idle_mutex_inv[OF assms(2)]]
  have one: "length (in_flight s) \<le> 1"
    using mi by (simp add: mutex_inv_def split: if_splits)
  have blocked: "step P (SenderBegin u) s = Inl Blocked" if "in_flight s \<noteq> []" for u
  proof -
    from that mi have "sendMutex (coll s)"
      by (auto simp: mutex_inv_def split: if_splits)
    then show ?thesis
      by simp
  qed
  have later: "in_flight s2 = [batch (coll s)]
              \<and> in_flight s3' = []
              \<and> concat (in_flight s4)
                  = (if flushed P (SenderEnd t doErr) s2 = []
                     then batch (coll s) @ appended evs @ appended evs'
                     else appended evs @ appended evs')"
    if b: "step P (SenderBegin t) s = Inr s1" and ne: "batch (coll s) \<noteq> []"
      and r: "run P evs s1 = Inr s2" and le: "list_all loop_event evs" and no: "no_overflow P evs s1"
      and e: "step P (SenderEnd t doErr) s2 = Inr s3"
      and r': "run P evs' s3 = Inr s3'" and le': "list_all loop_event evs'"
      and no': "no_overflow P evs' s3"
      and n: "step P (SenderBegin t') s3' = Inr s4"
    for t s1 evs s2 doErr s3 evs' s3' t' s4
  proof -
    from step_SenderBegin_in_flight[OF b mi] ne
    have f1: "in_flight s1 = [batch (coll s)]" and pc1: "pc_of s1 t = Some (InSend (batch (coll s)))"
      by simp_all
    from b ne have b1: "batch (coll s1) = batch (coll s)"
      by (simp add: step_SenderBegin_iff del: step.simps)
    from run_loop_events[OF r le no pc1] f1 b1
    have pc2: "pc_of s2 t = Some (InSend (batch (coll s)))" and f2: "in_flight s2 = [batch (coll s)]"
      and b2: "batch (coll s2) = batch (coll s) @ appended evs"
      by simp_all
    from e pc2 obtain c' where d: "sendNow_deliver P (coll s2) (batch (coll s)) doErr = Inr c'"
      and s3: "s3 = return_from t (s2\<lparr>coll := c'\<lparr>sendMutex := False\<rparr>\<rparr>)"
      by (auto simp add: step_SenderEnd_iff simp del: step.simps)
    from d have b3: "batch (coll s3)
        = (if flushed P (SenderEnd t doErr) s2 = [] then batch (coll s) @ appended evs
           else appended evs)"
    proof (cases rule: sendNow_deliver_cases)
      case ok
      with s3 b2 pc2 show ?thesis
        by simp
    next
      case (failed err)
      with s3 b2 pc2 show ?thesis
        by simp
    qed
    have m3: "mutex_inv s3"
      using step_mutex_inv[OF e run_mutex_inv[OF r step_mutex_inv[OF b mi]]] .
    from s3 have "\<not> sendMutex (coll s3)"
      by simp
    with m3 have f3: "in_flight s3 = []"
      by (simp add: mutex_inv_def)
    with m3 have "send_inv s3"
      by (simp add: send_inv_def)
    from run_conserves[OF r' this no'] delivered_loop_events[OF le', of P s3]
    have b3': "batch (coll s3') = batch (coll s3) @ appended evs'"
      by simp
    have m3': "mutex_inv s3'"
      using run_mutex_inv[OF r' m3] .
    from n have "\<not> sendMutex (coll s3')"
      by (simp add: step_SenderBegin_iff del: step.simps)
    with m3' have f3': "in_flight s3' = []"
      by (simp add: mutex_inv_def)
    from step_SenderBegin_in_flight(1)[OF n m3'] have "concat (in_flight s4) = batch (coll s3')"
      by simp
    with f2 f3' b3 b3' show ?thesis
      by simp
  qed
  have B: "in_flight s \<noteq> [] \<longrightarrow> (\<forall>u. step P (SenderBegin u) s = Inl Blocked)"
    by (intro allI impI, rule blocked)
  have C: "\<forall>t s1 evs s2 doErr s3 evs' s3' t' s4.
          step P (SenderBegin t) s = Inr s1 \<and> batch (coll s) \<noteq> []
          \<and> run P evs s1 = Inr s2 \<and> list_all loop_event evs \<and> no_overflow P evs s1
          \<and> step P (SenderEnd t doErr) s2 = Inr s3
          \<and> run P evs' s3 = Inr s3' \<and> list_all loop_event evs' \<and> no_overflow P evs' s3
          \<and> step P (SenderBegin t') s3' = Inr s4
          \<longrightarrow> in_flight s2 = [batch (coll s)]
              \<and> in_flight s3' = []
              \<and> concat (in_flight s4)
                  = (if flushed P (SenderEnd t doErr) s2 = []
                     then batch (coll s) @ appended evs @ appended evs'
                     else appended evs @ appended evs')"
    by (intro allI impI, elim conjE, rule later)
  from one B C show ?thesis
    by (intro conjI)
qed

text \<open>
  With a batch size of two and a backlog of ten: spans 3 and 4 arrive, each triggering a
  send, while the send of spans 1 and 2 is in flight; the second send is blocked; the
  first succeeds; span 5 arrives before the second has taken its snapshot; the second
  sends spans 3, 4 and 5.
\<close>

theorem one_send_at_a_time_witness:
  "length (in_flight (projr (run ok_ports (overlapped @ [SenderBegin (Go 0)]) (small 2 10)))) \<le> 1
   \<and> step ok_ports (SenderBegin (Go 1))
        (projr (run ok_ports (overlapped @ [SenderBegin (Go 0), Arrival (Span 3) 30, Arrival (Span 4) 40])
                  (small 2 10))) = Inl Blocked
   \<and> in_flight (projr (run ok_ports [Arrival (Span 3) 30, Arrival (Span 4) 40]
        (projr (step ok_ports (SenderBegin (Go 0)) (projr (run ok_ports overlapped (small 2 10)))))))
       = [[Span 1, Span 2]]
   \<and> concat (in_flight (projr (step ok_ports (SenderBegin (Go 1))
        (projr (run ok_ports [Arrival (Span 5) 50]
          (projr (step ok_ports (SenderEnd (Go 0) None)
            (projr (run ok_ports [Arrival (Span 3) 30, Arrival (Span 4) 40]
              (projr (step ok_ports (SenderBegin (Go 0))
                (projr (run ok_ports overlapped (small 2 10))))))))))))))
       = [Span 3, Span 4, Span 5]"
proof -
  let ?s = "projr (run ok_ports overlapped (small 2 10))"
  let ?s1 = "projr (step ok_ports (SenderBegin (Go 0)) ?s)"
  let ?evs = "[Arrival (Span 3) 30, Arrival (Span 4) 40]"
  let ?s2 = "projr (run ok_ports ?evs ?s1)"
  let ?s3 = "projr (step ok_ports (SenderEnd (Go 0) None) ?s2)"
  let ?evs' = "[Arrival (Span 5) 50]"
  let ?s3' = "projr (run ok_ports ?evs' ?s3)"
  let ?s4 = "projr (step ok_ports (SenderBegin (Go 1)) ?s3')"
  let ?sa = "projr (run ok_ports (overlapped @ [SenderBegin (Go 0)]) (small 2 10))"
  let ?sb = "projr (run ok_ports (overlapped @ [SenderBegin (Go 0), Arrival (Span 3) 30, Arrival (Span 4) 40])
                  (small 2 10))"
  have i: "idle (small 2 10)"
    by (simp add: idle_def fixture_defs model_defs)
  have ra: "run ok_ports (overlapped @ [SenderBegin (Go 0)]) (small 2 10) = Inr ?sa"
    by (simp add: overlapped_def fixture_defs model_defs)
  have rb: "run ok_ports (overlapped @ [SenderBegin (Go 0), Arrival (Span 3) 30, Arrival (Span 4) 40])
                  (small 2 10) = Inr ?sb"
    by (simp add: overlapped_def fixture_defs model_defs)
  have fb: "in_flight ?sb \<noteq> []"
    by (simp add: overlapped_def fixture_defs model_defs)
  have r: "run ok_ports overlapped (small 2 10) = Inr ?s"
    by (simp add: overlapped_def fixture_defs model_defs)
  have b: "step ok_ports (SenderBegin (Go 0)) ?s = Inr ?s1"
    by (simp add: overlapped_def fixture_defs model_defs)
  have ne: "batch (coll ?s) \<noteq> []" and bs: "batch (coll ?s) = [Span 1, Span 2]"
    by (simp_all add: overlapped_def fixture_defs model_defs)
  have r2: "run ok_ports ?evs ?s1 = Inr ?s2"
    by (simp add: overlapped_def fixture_defs model_defs)
  have le: "list_all loop_event ?evs" and le': "list_all loop_event ?evs'"
    by simp_all
  have no: "no_overflow ok_ports ?evs ?s1"
    by (simp add: overlapped_def fixture_defs model_defs)
  have e: "step ok_ports (SenderEnd (Go 0) None) ?s2 = Inr ?s3"
    by (simp add: overlapped_def fixture_defs model_defs)
  have r3: "run ok_ports ?evs' ?s3 = Inr ?s3'"
    by (simp add: overlapped_def fixture_defs model_defs)
  have no': "no_overflow ok_ports ?evs' ?s3"
    by (simp add: overlapped_def fixture_defs model_defs)
  have n: "step ok_ports (SenderBegin (Go 1)) ?s3' = Inr ?s4"
    by (simp add: overlapped_def fixture_defs model_defs)
  have fl: "flushed ok_ports (SenderEnd (Go 0) None) ?s2 \<noteq> []"
    by (simp add: overlapped_def fixture_defs model_defs)
  have c1: "length (in_flight ?sa) \<le> 1"
    using one_send_at_a_time[OF ra i] by (elim conjE)
  have c2: "step ok_ports (SenderBegin (Go 1)) ?sb = Inl Blocked"
    using one_send_at_a_time[OF rb i] fb by blast
  have h: "step ok_ports (SenderBegin (Go 0)) ?s = Inr ?s1 \<and> batch (coll ?s) \<noteq> []
      \<and> run ok_ports ?evs ?s1 = Inr ?s2 \<and> list_all loop_event ?evs \<and> no_overflow ok_ports ?evs ?s1
      \<and> step ok_ports (SenderEnd (Go 0) None) ?s2 = Inr ?s3
      \<and> run ok_ports ?evs' ?s3 = Inr ?s3' \<and> list_all loop_event ?evs' \<and> no_overflow ok_ports ?evs' ?s3
      \<and> step ok_ports (SenderBegin (Go 1)) ?s3' = Inr ?s4"
    using b ne r2 le no e r3 le' no' n by (intro conjI)
  note w = one_send_at_a_time[OF r i, THEN conjunct2, THEN conjunct2, rule_format, OF h]
  from w fl bs have c3: "in_flight ?s2 = [[Span 1, Span 2]]"
    and c4: "concat (in_flight ?s4) = [Span 3, Span 4, Span 5]"
    by (simp_all add: appended_def del: step.simps run.simps)
  from c1 c2 c3 c4 show ?thesis
    by (intro conjI)
qed

subsection \<open>C10: construction never fails\<close>

text \<open>
  C10: whatever the URL, the options and the time, \<open>NewHTTPCollector\<close> returns a
  \<open>nil\<close> error; it never looks at the URL. With options that leave the URL alone (the
  five of this file do), the URL given is the one of the collector in every state of
  every run; when \<open>http.NewRequest\<close> rejects it, every send whose batch serialises
  returns that error, whatever \<open>client.Do\<close> would have answered, and the flush attempt
  reports it to the sink and keeps the buffer.
\<close>

theorem constructor_never_fails:
  "snd (NewHTTPCollector u options now) = None
   \<and> ((\<forall>opt \<in> set options. \<forall>c. url (opt c) = url c)
        \<longrightarrow> url (coll (fst (NewHTTPCollector u options now))) = u)
   \<and> (\<forall>P evs s t sendBatch body doErr err.
        (\<forall>opt \<in> set options. \<forall>c. url (opt c) = url c)
        \<and> run P evs (fst (NewHTTPCollector u options now)) = Inr s
        \<and> NewRequest P u = Some err
        \<and> pc_of s t = Some (InSend sendBatch) \<and> httpSerialize P sendBatch = Inr body
        \<longrightarrow> send P (coll s) sendBatch doErr = Inr (Some err)
            \<and> step P (SenderEnd t doErr) s
                = Inr (return_from t (s\<lparr>coll := (coll s)\<lparr>logger := logger (coll s) @ [LogErr err],
                                                         sendMutex := False\<rparr>\<rparr>)))"
proof -
  have nil: "snd (NewHTTPCollector u options now) = None"
    by (simp add: NewHTTPCollector_def Let_def)
  have same: "url (coll (fst (NewHTTPCollector u options now))) = u"
    if "\<forall>opt \<in> set options. \<forall>c. url (opt c) = url c"
    using foldl_options_url[OF that] by (simp add: NewHTTPCollector_def Let_def scheduleNextSend_def)
  have late: "send P (coll s) sendBatch doErr = Inr (Some err)
            \<and> step P (SenderEnd t doErr) s
                = Inr (return_from t (s\<lparr>coll := (coll s)\<lparr>logger := logger (coll s) @ [LogErr err],
                                                         sendMutex := False\<rparr>\<rparr>))"
    if o: "\<forall>opt \<in> set options. \<forall>c. url (opt c) = url c"
      and r: "run P evs (fst (NewHTTPCollector u options now)) = Inr s"
      and p: "NewRequest P u = Some err"
      and pc: "pc_of s t = Some (InSend sendBatch)" and h: "httpSerialize P sendBatch = Inr body"
    for P evs s t sendBatch body doErr err
  proof -
    from run_cfg[OF r] same[OF o] have "url (coll s) = u"
      by simp
    with p h have "send P (coll s) sendBatch doErr = Inr (Some err)"
      by (simp add: send_def)
    with pc show ?thesis
      by (simp add: sendNow_deliver_def)
  qed
  have B: "(\<forall>opt \<in> set options. \<forall>c. url (opt c) = url c)
        \<longrightarrow> url (coll (fst (NewHTTPCollector u options now))) = u"
    by (intro impI, rule same)
  have C: "\<forall>P evs s t sendBatch body doErr err.
        (\<forall>opt \<in> set options. \<forall>c. url (opt c) = url c)
        \<and> run P evs (fst (NewHTTPCollector u options now)) = Inr s
        \<and> NewRequest P u = Some err
        \<and> pc_of s t = Some (InSend sendBatch) \<and> httpSerialize P sendBatch = Inr body
        \<longrightarrow> send P (coll s) sendBatch doErr = Inr (Some err)
            \<and> step P (SenderEnd t doErr) s
                = Inr (return_from t (s\<lparr>coll := (coll s)\<lparr>logger := logger (coll s) @ [LogErr err],
                                                         sendMutex := False\<rparr>\<rparr>))"
    by (intro allI impI, elim conjE, rule late)
  from nil B C show ?thesis
    by (intro conjI)
qed

text \<open>
  The URL \<open>:\<close> is accepted by the constructor; the first flush logs the parser's error
  and keeps its span.
\<close>

theorem constructor_never_fails_witness:
  "snd (NewHTTPCollector '':'' [HTTPBatchSize 1] 0) = None
   \<and> map_sum id (\<lambda>s. (logger (coll s), batch (coll s)))
       (step parse_fail_ports (SenderEnd (Go 0) None)
          (projr (run parse_fail_ports (take 3 one_flush)
                    (fst (NewHTTPCollector '':'' [HTTPBatchSize 1] 0)))))
     = Inr ([LogErr ''missing protocol scheme''], [Span 1])"
proof -
  let ?ini = "fst (NewHTTPCollector '':'' [HTTPBatchSize 1] 0)"
  let ?s = "projr (run parse_fail_ports (take 3 one_flush) ?ini)"
  have o: "\<forall>opt \<in> set [HTTPBatchSize 1]. \<forall>c. url (opt c) = url c"
    by (simp add: HTTPBatchSize_def)
  have r: "run parse_fail_ports (take 3 one_flush) ?ini = Inr ?s"
    by (simp add: one_flush_def fixture_defs model_defs)
  have p: "NewRequest parse_fail_ports '':'' = Some ''missing protocol scheme''"
    by (simp add: parse_fail_ports_def)
  have pc: "pc_of ?s (Go 0) = Some (InSend [Span 1])"
    by (simp add: one_flush_def fixture_defs model_defs)
  have h: "httpSerialize parse_fail_ports [Span 1] = Inr ''LS''"
    by (simp add: httpSerialize_def parse_fail_ports_def)
  have v: "logger (coll ?s) = []" "batch (coll ?s) = [Span 1]"
    by (simp_all add: one_flush_def fixture_defs model_defs)
  note w = constructor_never_fails[of "'':''" "[HTTPBatchSize 1]" 0]
  have c1: "snd (NewHTTPCollector '':'' [HTTPBatchSize 1] 0) = None"
    using w by (elim conjE)
  have "step parse_fail_ports (SenderEnd (Go 0) None) ?s
      = Inr (return_from (Go 0) (?s\<lparr>coll := (coll ?s)\<lparr>logger := logger (coll ?s) @ [LogErr ''missing protocol scheme''],
                                                         sendMutex := False\<rparr>\<rparr>))"
    using w o r p pc h by blast
  with v have c2: "map_sum id (\<lambda>s. (logger (coll s), batch (coll s)))
       (step parse_fail_ports (SenderEnd (Go 0) None) ?s)
     = Inr ([LogErr ''missing protocol scheme''], [Span 1])"
    by (simp del: step.simps run.simps)
  from c1 c2 show ?thesis
    by (intro conjI)
qed

text \<open>
  A remark on the options: the constructor does not look at them either. An interval
  below ten nanoseconds, such as \<open>HTTPBatchInterval(0)\<close>, is accepted, and the loop
  goroutine panics when it creates its ticker.
\<close>

lemma loop_panics_on_zero_interval:
  "snd (NewHTTPCollector ''http://zipkin'' [HTTPBatchInterval 0] 0) = None
   \<and> step ok_ports LoopStart (fst (NewHTTPCollector ''http://zipkin'' [HTTPBatchInterval 0] 0))
       = Inl (Panicked ''non-positive interval for NewTicker'')"
  by (simp add: fixture_defs model_defs)

end
